theory Spec2Isabelle
  imports Main "HOL-Library.Word"
begin

unbundle bit_operations_syntax

section \<open>The compressor of \<^verbatim>\<open>csrc/compress.c\<close>\<close>

text \<open>
  The C function \<^verbatim>\<open>compress\<close> encodes a byte buffer twice, once per configuration
  \<open>i = 0, 1\<close>, into one of two fixed arrays of \<open>0x10000\<close> bytes, and returns the
  shorter encoding. The model keeps the source's variables and its control flow:
  \<^item> a byte (\<^verbatim>\<open>char\<close>) is an \<open>8 word\<close>;
  \<^item> positions and lengths (\<^verbatim>\<open>int\<close> in the source) are \<open>nat\<close>: every one of them stays
    between 0 and \<open>len_source + 0x10000\<close>, and the two subtractions that could go below zero
    are guarded in the source exactly where truncated subtraction yields 0;
  \<^item> an output array starts uninitialised: a cell is \<open>None\<close> until it is written;
  \<^item> an access outside the source or outside an output array (undefined behaviour in C) is
    an error value, so that every read and write of the source is a checked branch;
  \<^item> each loop is a recursive function with a termination proof.
  The input is shorter than \<open>2^31\<close> bytes, so that the \<^verbatim>\<open>int len_source\<close> holds
  \<^verbatim>\<open>buffer.len\<close>; the language binding (argument parsing, the Python objects) is not
  modelled.
\<close>

subsection \<open>Memory\<close>

type_synonym byte = "8 word"

type_synonym buffer = "nat \<Rightarrow> byte option"

datatype error = SourceOutOfBounds | BufferOutOfBounds

definition bnd :: "error + 'a \<Rightarrow> ('a \<Rightarrow> error + 'b) \<Rightarrow> error + 'b" where
  "bnd m f = (case m of Inl e \<Rightarrow> Inl e | Inr x \<Rightarrow> f x)"

text \<open>\<^verbatim>\<open>source[k]\<close>, with \<^verbatim>\<open>len_source = buffer.len\<close>.\<close>

definition src_read :: "byte list \<Rightarrow> nat \<Rightarrow> error + byte" where
  "src_read source k = (if k < length source then Inr (source ! k) else Inl SourceOutOfBounds)"

text \<open>\<^verbatim>\<open>compressed_data[i][k] = v\<close>, on \<^verbatim>\<open>char compressed_data[2][0x10000]\<close>.\<close>

definition store :: "buffer \<Rightarrow> nat \<Rightarrow> byte option \<Rightarrow> error + buffer" where
  "store d k v = (if k < 0x10000 then Inr (d(k := v)) else Inl BufferOutOfBounds)"

text \<open>\<^verbatim>\<open>compressed_data[i][k]\<close> as a value; an uninitialised cell reads as \<open>None\<close>.\<close>

definition load :: "buffer \<Rightarrow> nat \<Rightarrow> error + byte option" where
  "load d k = (if k < 0x10000 then Inr (d k) else Inl BufferOutOfBounds)"

text \<open>\<^verbatim>\<open>compressed_data[i][k] |= m\<close>.\<close>

definition or_store :: "buffer \<Rightarrow> nat \<Rightarrow> nat \<Rightarrow> error + buffer" where
  "or_store d k m = bnd (load d k) (\<lambda>v. store d k (map_option (\<lambda>b. b OR of_nat m) v))"

subsection \<open>The two configurations\<close>

text \<open>\<^verbatim>\<open>lookback_range = 0x07FF | (i << 11)\<close>\<close>

definition lookback_range :: "nat \<Rightarrow> nat" where
  "lookback_range i = 0x07FF OR push_bit 11 i"

text \<open>\<^verbatim>\<open>max_copy_length = (0xFFFF ^ lookback_range) >> (16-(5-i)); max_copy_length += 3\<close>\<close>

definition max_copy_length :: "nat \<Rightarrow> nat" where
  "max_copy_length i = drop_bit (16 - (5 - i)) (0xFFFF XOR lookback_range i) + 3"

subsection \<open>The match finder\<close>

text \<open>
  The inner \<^verbatim>\<open>while\<close> of the match finder. The condition of the source is a short-circuit
  conjunction: the two bytes are read only when both bounds hold.
\<close>

function extend_match :: "byte list \<Rightarrow> nat \<Rightarrow> nat \<Rightarrow> nat \<Rightarrow> nat \<Rightarrow> error + nat" where
  "extend_match source mcl start src_pos cur_len =
     (if src_pos + cur_len < length source \<and> cur_len < mcl then
        (case src_read source (start + cur_len) of
           Inl e \<Rightarrow> Inl e
         | Inr x \<Rightarrow>
             (case src_read source (src_pos + cur_len) of
                Inl e \<Rightarrow> Inl e
              | Inr y \<Rightarrow>
                  if x = y then extend_match source mcl start src_pos (cur_len + 1)
                  else Inr cur_len))
      else Inr cur_len)"
  by pat_completeness auto
termination
  by (relation "measure (\<lambda>(source, mcl, start, src_pos, cur_len). mcl - cur_len)") auto

declare extend_match.simps [simp del]

text \<open>
  The \<^verbatim>\<open>for (start = lookback_st; start < lookback_end; start++)\<close> loop; the pair is
  \<open>(best_len, best_len_st)\<close>. The \<^verbatim>\<open>break\<close> leaves the loop with the start at which
  \<open>max_copy_length\<close> was first reached.
\<close>

function scan :: "byte list \<Rightarrow> nat \<Rightarrow> nat \<Rightarrow> nat \<Rightarrow> nat \<Rightarrow> nat \<times> nat \<Rightarrow> error + nat \<times> nat" where
  "scan source mcl src_pos lookback_end start best =
     (if start < lookback_end then
        (case extend_match source mcl start src_pos 0 of
           Inl e \<Rightarrow> Inl e
         | Inr cur_len \<Rightarrow>
             if cur_len \<ge> fst best then
               (if cur_len = mcl then Inr (cur_len, start)
                else scan source mcl src_pos lookback_end (start + 1) (cur_len, start))
             else scan source mcl src_pos lookback_end (start + 1) best)
      else Inr best)"
  by pat_completeness auto
termination
  by (relation "measure (\<lambda>(source, mcl, src_pos, lookback_end, start, best). lookback_end - start)")
    auto

declare scan.simps [simp del]

text \<open>
  Lines 124 to 148 of the source: the window, \<^verbatim>\<open>best_len = 0; best_len_st = 0\<close>, and the scan.
  On \<open>nat\<close>, \<open>src_pos - lookback_range i\<close> is 0 exactly when the source's signed difference
  is not positive, which is when the source takes 0.
\<close>

definition find_match :: "byte list \<Rightarrow> nat \<Rightarrow> nat \<Rightarrow> error + nat \<times> nat" where
  "find_match source i src_pos =
     (let lookback_st = (if src_pos - lookback_range i > 0 then src_pos - lookback_range i else 0);
          lookback_end = src_pos
      in scan source (max_copy_length i) src_pos lookback_end lookback_st (0, 0))"

subsection \<open>The packet encoder\<close>

text \<open>
  What one iteration of the \<^verbatim>\<open>bit\<close> loop emits. This log is ghost state: the source has no
  such variable and nothing in the model reads it; it records, per element, the number of
  source bytes the element consumed.
\<close>

datatype element = Literal byte | Match nat nat

fun consumed :: "element \<Rightarrow> nat" where
  "consumed (Literal b) = 1"
| "consumed (Match lookback best_len) = best_len"

text \<open>
  The variables of one trial: \<open>data\<close> is \<^verbatim>\<open>compressed_data[i]\<close>, \<open>clen\<close> is
  \<^verbatim>\<open>compressed_lengths[i]\<close>, \<open>is_done\<close> is \<^verbatim>\<open>done\<close>.
\<close>

record enc_state =
  data :: buffer
  clen :: nat
  header_pos :: nat
  src_pos :: nat
  out_pos :: nat
  is_done :: bool
  emitted :: "element list"

text \<open>
  The backward copy \<^verbatim>\<open>for (j = addendum_size-1; j >= 0; j--)\<close>; the argument \<open>Suc j\<close> is the
  iteration with loop variable \<open>j\<close>.
\<close>

fun relocate :: "nat \<Rightarrow> nat \<Rightarrow> buffer \<Rightarrow> error + buffer" where
  "relocate hp 0 d = Inr d"
| "relocate hp (Suc j) d =
     bnd (load d (hp + j)) (\<lambda>v. bnd (store d (hp + 3 + j) v) (relocate hp j))"

text \<open>
  Lines 79 to 122: the source is exhausted at bit \<open>bt\<close> of the current packet. With
  \<open>bt = 0\<close> the header becomes the terminator; otherwise the partial packet, header
  included, moves up three bytes behind the addendum header and the length marker.
  \<open>header_pos - 2\<close> is never negative: \<open>out_pos\<close> starts at 2.
\<close>

definition finish :: "nat \<Rightarrow> nat \<Rightarrow> enc_state \<Rightarrow> error + enc_state" where
  "finish i bt st =
     bnd (if bt = 0 then
            bnd (store (data st) (header_pos st) (Some (of_nat (0xC0 * (1 - i))))) (\<lambda>d.
            Inr (st\<lparr>data := d, clen := header_pos st + 1\<rparr>))
          else
            (let mask = push_bit bt 0xFF AND 0xFF in
             bnd (or_store (data st) (header_pos st) mask) (\<lambda>d.
             let addendum_size = out_pos st - header_pos st in
             bnd (relocate (header_pos st) addendum_size d) (\<lambda>d.
             bnd (store d (header_pos st) (Some (of_nat (0xC0 * (1 - i) OR bt)))) (\<lambda>d.
             bnd (store d (header_pos st + 1) (Some (of_nat ((out_pos st + 3) mod 0x100)))) (\<lambda>d.
             bnd (store d (header_pos st + 2) (Some (of_nat ((out_pos st + 3) div 0x100)))) (\<lambda>d.
             bnd (store d (out_pos st + 3) (Some (of_nat (0xC0 * (1 - i))))) (\<lambda>d.
             Inr (st\<lparr>data := d, clen := out_pos st + 4\<rparr>)))))))))
       (\<lambda>st.
          bnd (store (data st) 0 (Some (of_nat ((header_pos st - 2) mod 0x100)))) (\<lambda>d.
          bnd (store d 1 (Some (of_nat ((header_pos st - 2) div 0x100)))) (\<lambda>d.
          Inr (st\<lparr>data := d, is_done := True\<rparr>))))"

text \<open>Lines 124 to 179: one element, a match when \<open>best_len > 2\<close> and a literal otherwise.\<close>

definition encode_element :: "byte list \<Rightarrow> nat \<Rightarrow> nat \<Rightarrow> enc_state \<Rightarrow> error + enc_state" where
  "encode_element source i bt st =
     bnd (find_match source i (src_pos st)) (\<lambda>(best_len, best_len_st).
       if best_len > 2 then
         bnd (or_store (data st) (header_pos st) (push_bit bt 1)) (\<lambda>d.
         let lookback = src_pos st - best_len_st;
             compr_stream = lookback OR push_bit (16 - (5 - i)) (best_len - 3) in
         bnd (store d (out_pos st) (Some (of_nat (compr_stream mod 0x100)))) (\<lambda>d.
         bnd (store d (out_pos st + 1) (Some (of_nat (compr_stream div 0x100)))) (\<lambda>d.
         Inr (st\<lparr>data := d, out_pos := out_pos st + 2, src_pos := src_pos st + best_len,
                 emitted := emitted st @ [Match lookback best_len]\<rparr>))))
       else
         bnd (src_read source (src_pos st)) (\<lambda>b.
         bnd (store (data st) (out_pos st) (Some b)) (\<lambda>d.
         Inr (st\<lparr>data := d, out_pos := out_pos st + 1, src_pos := src_pos st + 1,
                 emitted := emitted st @ [Literal b]\<rparr>))))"

text \<open>The \<^verbatim>\<open>for (bit = 0; bit < 8; bit++)\<close> loop of one packet.\<close>

function bits :: "byte list \<Rightarrow> nat \<Rightarrow> nat \<Rightarrow> enc_state \<Rightarrow> error + enc_state" where
  "bits source i bt st =
     (if bt < 8 then
        (if src_pos st = length source then finish i bt st
         else
           (case encode_element source i bt st of
              Inl e \<Rightarrow> Inl e
            | Inr st' \<Rightarrow> bits source i (bt + 1) st'))
      else Inr st)"
  by pat_completeness auto
termination
  by (relation "measure (\<lambda>(source, i, bt, st). 8 - bt)") auto

declare bits.simps [simp del]

text \<open>The packet prologue: lines 67 to 73.\<close>

definition packet :: "byte list \<Rightarrow> nat \<Rightarrow> enc_state \<Rightarrow> error + enc_state" where
  "packet source i st =
     bnd (store (data st) (out_pos st) (Some 0)) (\<lambda>d.
       bits source i 0 (st\<lparr>header_pos := out_pos st, data := d, out_pos := out_pos st + 1\<rparr>))"

subsection \<open>The trial loop and the selection\<close>

text \<open>
  The \<^verbatim>\<open>while (!done)\<close> loop stops when a packet has finished the frame or when
  \<open>out_pos\<close> has reached \<open>best_size\<close>. It terminates because every packet that does not
  finish the frame moves \<open>out_pos\<close> forward; the four lemmas below establish that.
\<close>

lemma bnd_Inl [simp]: "bnd (Inl e) f = Inl e"
  by (simp add: bnd_def)

lemma bnd_Inr [simp]: "bnd (Inr x) f = f x"
  by (simp add: bnd_def)

lemma bnd_eq_Inr: "bnd m f = Inr y \<longleftrightarrow> (\<exists>x. m = Inr x \<and> f x = Inr y)"
  by (cases m) simp_all

lemma finish_done: "finish i bt st = Inr st' \<Longrightarrow> is_done st'"
  by (auto simp: finish_def bnd_eq_Inr split: if_splits)

lemma encode_element_out_pos:
  "encode_element source i bt st = Inr st' \<Longrightarrow> out_pos st < out_pos st'"
  by (auto simp: encode_element_def bnd_eq_Inr Let_def split: if_splits prod.splits)

lemma bits_progress:
  "bits source i bt st = Inr st' \<Longrightarrow> is_done st' \<or> out_pos st \<le> out_pos st'"
proof (induction source i bt st rule: bits.induct)
  case (1 source i bt st)
  show ?case
  proof (cases "bt < 8")
    case False
    with "1.prems" show ?thesis by (simp add: bits.simps)
  next
    case True
    show ?thesis
    proof (cases "src_pos st = length source")
      case True
      with \<open>bt < 8\<close> "1.prems" show ?thesis by (simp add: finish_done bits.simps)
    next
      case False
      with \<open>bt < 8\<close> "1.prems" obtain st1 where e: "encode_element source i bt st = Inr st1"
        and b: "bits source i (bt + 1) st1 = Inr st'"
        by (auto simp: bits.simps split: sum.splits)
      from "1.IH"[OF \<open>bt < 8\<close> False e b] encode_element_out_pos[OF e] show ?thesis by auto
    qed
  qed
qed

lemma packet_progress:
  "packet source i st = Inr st' \<Longrightarrow> is_done st' \<or> out_pos st < out_pos st'"
  by (auto simp: packet_def bnd_eq_Inr dest!: bits_progress)

function packets :: "byte list \<Rightarrow> nat \<Rightarrow> nat \<Rightarrow> enc_state \<Rightarrow> error + enc_state" where
  "packets source i best_size st =
     (if is_done st then Inr st
      else if out_pos st \<ge> best_size then Inr st
      else (case packet source i st of
              Inl e \<Rightarrow> Inl e
            | Inr st' \<Rightarrow> packets source i best_size st'))"
  by pat_completeness auto
termination
proof (relation "measure (\<lambda>(source, i, best_size, st).
         if is_done st then 0 else Suc (best_size - out_pos st))")
  fix source i best_size st st'
  assume "\<not> is_done st" "\<not> best_size \<le> out_pos st" "packet source i st = Inr st'"
  then show "((source, i, best_size, st'), source, i, best_size, st)
       \<in> measure (\<lambda>(source, i, best_size, st).
            if is_done st then 0 else Suc (best_size - out_pos st))"
    using packet_progress[of source i st st'] by auto
qed simp

declare packets.simps [simp del]

text \<open>
  The start of a trial: \<^verbatim>\<open>src_pos = 0; out_pos = 2; done = false\<close> on an uninitialised array
  whose recorded length is the sentinel of line 36. \<open>header_pos\<close> is not reset between the
  trials; the argument \<open>hp\<close> is the value it has when the trial starts.
\<close>

definition init_state :: "nat \<Rightarrow> enc_state" where
  "init_state hp = \<lparr>data = (\<lambda>k. None), clen = 0x10000, header_pos = hp, src_pos = 0,
     out_pos = 2, is_done = False, emitted = []\<rparr>"

definition trial :: "byte list \<Rightarrow> nat \<Rightarrow> nat \<Rightarrow> nat \<Rightarrow> error + enc_state" where
  "trial source i best_size hp = packets source i best_size (init_state hp)"

text \<open>
  \<^verbatim>\<open>Py_BuildValue("y#", &compressed_data[ret_choice][0], compressed_lengths[ret_choice])\<close>:
  the first \<open>clen\<close> cells of the chosen array, initialised or not.
\<close>

definition frame_of :: "enc_state \<Rightarrow> error + byte option list" where
  "frame_of st =
     (if clen st \<le> 0x10000 then Inr (map (data st) [0..<clen st]) else Inl BufferOutOfBounds)"

text \<open>
  Lines 19 and 47 to 193, the loop over \<open>i\<close> unrolled: \<open>best_size\<close> is \<open>0x1000\<close> for the
  first trial and is lowered to the first trial's length for the second (lines 183 to 185).
  The result is \<open>ret_choice\<close> with the variables of the chosen trial.
\<close>

definition run_trials :: "byte list \<Rightarrow> error + nat \<times> enc_state" where
  "run_trials source =
     bnd (trial source 0 0x1000 0) (\<lambda>st0.
     let best_size = (if clen st0 < 0x1000 then clen st0 else 0x1000) in
     bnd (trial source 1 best_size (header_pos st0)) (\<lambda>st1.
     let ret_choice = (if clen st0 \<le> clen st1 then 0 else 1) in
     Inr (ret_choice, if ret_choice = 0 then st0 else st1)))"

text \<open>Lines 195 to 199: the bytes handed back to the caller.\<close>

definition compress :: "byte list \<Rightarrow> error + byte option list" where
  "compress source = bnd (run_trials source) (\<lambda>(ret_choice, st). frame_of st)"

text \<open>
  The variant the specification compares with: both trials run with the bound \<open>0x1000\<close>,
  and the selection is the same.
\<close>

definition run_trials_untightened :: "byte list \<Rightarrow> error + nat \<times> enc_state" where
  "run_trials_untightened source =
     bnd (trial source 0 0x1000 0) (\<lambda>st0.
     bnd (trial source 1 0x1000 (header_pos st0)) (\<lambda>st1.
     let ret_choice = (if clen st0 \<le> clen st1 then 0 else 1) in
     Inr (ret_choice, if ret_choice = 0 then st0 else st1)))"

definition compress_untightened :: "byte list \<Rightarrow> error + byte option list" where
  "compress_untightened source =
     bnd (run_trials_untightened source) (\<lambda>(ret_choice, st). frame_of st)"

section \<open>Basic facts\<close>

lemma lookback_range_0: "lookback_range 0 = 2047"
  by (simp add: lookback_range_def)

lemma lookback_range_1: "lookback_range (Suc 0) = 4095"
  by (simp add: lookback_range_def)

lemma max_copy_length_0: "max_copy_length 0 = 34"
  by (simp add: max_copy_length_def lookback_range_def)

lemma max_copy_length_1: "max_copy_length (Suc 0) = 18"
  by (simp add: max_copy_length_def lookback_range_def)

lemma store_eq_Inr: "store d k v = Inr d' \<longleftrightarrow> k < 0x10000 \<and> d' = d(k := v)"
  by (auto simp: store_def)

lemma load_eq_Inr: "load d k = Inr v \<longleftrightarrow> k < 0x10000 \<and> v = d k"
  by (auto simp: load_def)

lemma or_store_eq_Inr:
  "or_store d k m = Inr d' \<longleftrightarrow>
     k < 0x10000 \<and> d' = d(k := map_option (\<lambda>b. b OR of_nat m) (d k))"
  by (auto simp: or_store_def bnd_eq_Inr load_eq_Inr store_eq_Inr)

text \<open>
  Running the model on a concrete input is rewriting with the defining equations; the
  recursion of \<open>relocate\<close> is unfolded on numerals by the first lemma.
\<close>

lemma relocate_unfold:
  "relocate hp n d =
     (if n = 0 then Inr d
      else bnd (load d (hp + (n - 1))) (\<lambda>v. bnd (store d (hp + 3 + (n - 1)) v) (relocate hp (n - 1))))"
  by (cases n) simp_all

lemmas eval_defs = run_trials_def trial_def init_state_def packets.simps packet_def bits.simps
  finish_def encode_element_def find_match_def scan.simps extend_match.simps store_def load_def
  or_store_def src_read_def lookback_range_0 lookback_range_1 max_copy_length_0
  max_copy_length_1 Let_def relocate_unfold numeral_2_eq_2[symmetric]

lemma upt_8: "[0..<8] = [0, 1, 2, 3, 4, 5, 6, 7]"
  by (simp add: upt_rec)

lemma upt_9: "[0..<9] = [0, 1, 2, 3, 4, 5, 6, 7, 8]"
  by (simp add: upt_rec)

section \<open>The match finder\<close>

lemma src_read_eq_Inr: "src_read source k = Inr x \<longleftrightarrow> k < length source \<and> x = source ! k"
  by (auto simp: src_read_def)

lemma extend_match_total:
  "start \<le> p \<Longrightarrow> \<exists>l. extend_match source mcl start p cur_len = Inr l"
proof (induction source mcl start p cur_len rule: extend_match.induct)
  case (1 source mcl start p cur_len)
  show ?case
  proof (cases "p + cur_len < length source \<and> cur_len < mcl")
    case False
    then show ?thesis by (auto simp: extend_match.simps[of source mcl start p cur_len])
  next
    case True
    with "1.prems" have rd: "src_read source (start + cur_len) = Inr (source ! (start + cur_len))"
      "src_read source (p + cur_len) = Inr (source ! (p + cur_len))"
      by (simp_all add: src_read_def)
    show ?thesis
    proof (cases "source ! (start + cur_len) = source ! (p + cur_len)")
      case False
      with True rd show ?thesis by (auto simp: extend_match.simps[of source mcl start p cur_len])
    next
      case eq: True
      from "1.IH"[OF True rd(1) rd(2) eq "1.prems"] True rd eq show ?thesis
        by (auto simp: extend_match.simps[of source mcl start p cur_len])
    qed
  qed
qed

lemma extend_match_bounds:
  "extend_match source mcl start p cur_len = Inr l \<Longrightarrow>
     cur_len \<le> l \<and> (cur_len \<le> mcl \<longrightarrow> l \<le> mcl) \<and> (p + cur_len \<le> length source \<longrightarrow> p + l \<le> length source)"
proof (induction source mcl start p cur_len rule: extend_match.induct)
  case (1 source mcl start p cur_len)
  show ?case
  proof (cases "p + cur_len < length source \<and> cur_len < mcl")
    case False
    with "1.prems" show ?thesis by (auto simp: extend_match.simps[of source mcl start p cur_len])
  next
    case True
    with "1.prems" obtain x y where rd: "src_read source (start + cur_len) = Inr x"
      "src_read source (p + cur_len) = Inr y"
      by (auto simp: extend_match.simps[of source mcl start p cur_len] split: sum.splits)
    show ?thesis
    proof (cases "x = y")
      case False
      with True rd "1.prems" show ?thesis by (auto simp: extend_match.simps[of source mcl start p cur_len])
    next
      case eq: True
      with True rd "1.prems" have "extend_match source mcl start p (cur_len + 1) = Inr l"
        by (auto simp: extend_match.simps[of source mcl start p cur_len])
      from "1.IH"[OF True rd(1) rd(2) eq this] True show ?thesis by auto
    qed
  qed
qed

lemma extend_match_le_mcl: "extend_match source mcl s p 0 = Inr l \<Longrightarrow> l \<le> mcl"
  using extend_match_bounds[of source mcl s p 0 l] by simp

lemma scan_spec:
  "scan source mcl p e start best = Inr r \<Longrightarrow> fst best < mcl \<Longrightarrow>
     fst best \<le> fst r \<and> fst r \<le> mcl \<and>
     (\<forall>s l. start \<le> s \<and> s < e \<and> extend_match source mcl s p 0 = Inr l \<longrightarrow> l \<le> fst r) \<and>
     (r = best \<or> (start \<le> snd r \<and> snd r < e \<and> extend_match source mcl (snd r) p 0 = Inr (fst r))) \<and>
     (fst r < mcl \<longrightarrow>
        (\<forall>s. start \<le> s \<and> s < e \<and> extend_match source mcl s p 0 = Inr (fst r) \<longrightarrow> s \<le> snd r)) \<and>
     (fst r = mcl \<longrightarrow>
        (\<forall>s. start \<le> s \<and> s < e \<and> extend_match source mcl s p 0 = Inr mcl \<longrightarrow> snd r \<le> s))"
proof (induction source mcl p e start best rule: scan.induct)
  case (1 source mcl p e start best)
  note unf = scan.simps[of source mcl p e start best]
  show ?case
  proof (cases "start < e")
    case False
    with "1.prems" unf show ?thesis by auto
  next
    case True
    with "1.prems" unf obtain cur_len where ex: "extend_match source mcl start p 0 = Inr cur_len"
      by (auto split: sum.splits)
    from extend_match_bounds[OF ex] have cl: "cur_len \<le> mcl" by simp
    have range: "\<And>s. start \<le> s \<Longrightarrow> s = start \<or> start + 1 \<le> s" by auto
    show ?thesis
    proof (cases "cur_len \<ge> fst best")
      case upd: True
      show ?thesis
      proof (cases "cur_len = mcl")
        case brk: True
        with True ex upd "1.prems" unf have "r = (cur_len, start)" by auto
        with brk True ex upd "1.prems" show ?thesis by (auto dest: extend_match_le_mcl)
      next
        case nobrk: False
        with True ex upd "1.prems" unf
        have rec: "scan source mcl p e (start + 1) (cur_len, start) = Inr r" by auto
        from nobrk cl have lt: "fst (cur_len, start) < mcl" by simp
        note IH = "1.IH"(1)[OF True ex upd nobrk rec lt]
        from IH have i1: "cur_len \<le> fst r" and i2: "fst r \<le> mcl"
          and i3: "\<And>s l. start + 1 \<le> s \<Longrightarrow> s < e \<Longrightarrow> extend_match source mcl s p 0 = Inr l \<Longrightarrow> l \<le> fst r"
          and i4: "r = (cur_len, start) \<or> (start + 1 \<le> snd r \<and> snd r < e \<and>
                     extend_match source mcl (snd r) p 0 = Inr (fst r))"
          and i5: "\<And>s. fst r < mcl \<Longrightarrow> start + 1 \<le> s \<Longrightarrow> s < e \<Longrightarrow>
                     extend_match source mcl s p 0 = Inr (fst r) \<Longrightarrow> s \<le> snd r"
          and i6: "\<And>s. fst r = mcl \<Longrightarrow> start + 1 \<le> s \<Longrightarrow> s < e \<Longrightarrow>
                     extend_match source mcl s p 0 = Inr mcl \<Longrightarrow> snd r \<le> s"
          by simp_all
        have c1: "fst best \<le> fst r" using upd i1 by simp
        have c3: "l \<le> fst r" if "start \<le> s" "s < e" "extend_match source mcl s p 0 = Inr l" for s l
          using range[OF that(1)] that ex i1 i3[of s l] by auto
        have c4: "start \<le> snd r \<and> snd r < e \<and> extend_match source mcl (snd r) p 0 = Inr (fst r)"
          using i4 True ex by auto
        have c5: "s \<le> snd r" if "fst r < mcl" "start \<le> s" "s < e"
          "extend_match source mcl s p 0 = Inr (fst r)" for s
          using range[OF that(2)] that c4 i5[of s] by auto
        have c6: "snd r \<le> s" if "fst r = mcl" "start \<le> s" "s < e"
          "extend_match source mcl s p 0 = Inr mcl" for s
          using range[OF that(2)] that ex nobrk i6[of s] by auto
        show ?thesis using c1 i2 c3 c4 c5 c6 by blast
      qed
    next
      case noupd: False
      with True ex "1.prems" unf
      have rec: "scan source mcl p e (start + 1) best = Inr r" by auto
      note IH = "1.IH"(2)[OF True ex noupd rec "1.prems"(2)]
      from IH have i1: "fst best \<le> fst r" and i2: "fst r \<le> mcl"
        and i3: "\<And>s l. start + 1 \<le> s \<Longrightarrow> s < e \<Longrightarrow> extend_match source mcl s p 0 = Inr l \<Longrightarrow> l \<le> fst r"
        and i4: "r = best \<or> (start + 1 \<le> snd r \<and> snd r < e \<and>
                   extend_match source mcl (snd r) p 0 = Inr (fst r))"
        and i5: "\<And>s. fst r < mcl \<Longrightarrow> start + 1 \<le> s \<Longrightarrow> s < e \<Longrightarrow>
                   extend_match source mcl s p 0 = Inr (fst r) \<Longrightarrow> s \<le> snd r"
        and i6: "\<And>s. fst r = mcl \<Longrightarrow> start + 1 \<le> s \<Longrightarrow> s < e \<Longrightarrow>
                   extend_match source mcl s p 0 = Inr mcl \<Longrightarrow> snd r \<le> s"
        by simp_all
      have c3: "l \<le> fst r" if "start \<le> s" "s < e" "extend_match source mcl s p 0 = Inr l" for s l
        using range[OF that(1)] that ex i1 noupd i3[of s l] by auto
      have c4: "r = best \<or> (start \<le> snd r \<and> snd r < e \<and>
                   extend_match source mcl (snd r) p 0 = Inr (fst r))"
        using i4 by auto
      have c5: "s \<le> snd r" if "fst r < mcl" "start \<le> s" "s < e"
        "extend_match source mcl s p 0 = Inr (fst r)" for s
        using range[OF that(2)] that ex noupd i1 i5[of s] by auto
      have c6: "snd r \<le> s" if "fst r = mcl" "start \<le> s" "s < e"
        "extend_match source mcl s p 0 = Inr mcl" for s
        using range[OF that(2)] that ex noupd "1.prems"(2) i6[of s] by auto
      show ?thesis using i1 i2 c3 c4 c5 c6 by blast
    qed
  qed
qed

lemma scan_total: "e \<le> p \<Longrightarrow> \<exists>r. scan source mcl p e start best = Inr r"
proof (induction source mcl p e start best rule: scan.induct)
  case (1 source mcl p e start best)
  note unf = scan.simps[of source mcl p e start best]
  show ?case
  proof (cases "start < e")
    case False
    with unf show ?thesis by auto
  next
    case True
    with "1.prems" extend_match_total[of start p source mcl 0]
    obtain cur_len where ex: "extend_match source mcl start p 0 = Inr cur_len" by auto
    show ?thesis
      using "1.IH"(1)[OF True ex _ _ "1.prems"] "1.IH"(2)[OF True ex _ "1.prems"] unf True ex
      by (cases "cur_len \<ge> fst best"; cases "cur_len = mcl"; auto)
  qed
qed

lemma find_match_total: "\<exists>r. find_match source i p = Inr r"
  unfolding find_match_def Let_def by (rule scan_total) simp

lemma max_copy_length_pos: "0 < max_copy_length i"
  by (simp add: max_copy_length_def)

lemma extend_match_in_source:
  assumes "extend_match source mcl s p 0 = Inr l" "0 < l"
  shows "p + l \<le> length source"
proof -
  have "p < length source"
  proof (rule ccontr)
    assume "\<not> p < length source"
    with assms(1) have "l = 0" by (auto simp: extend_match.simps[of source mcl s p 0])
    with assms(2) show False by simp
  qed
  with extend_match_bounds[OF assms(1)] show ?thesis by simp
qed

lemma find_match_scan:
  "find_match source i p = scan source (max_copy_length i) p p (p - lookback_range i) (0, 0)"
proof -
  have "(if p - lookback_range i > 0 then p - lookback_range i else 0) = p - lookback_range i"
    by simp
  then show ?thesis unfolding find_match_def Let_def by (rule arg_cong)
qed

lemma find_match_at_start: "find_match source i 0 = Inr (0, 0)"
  by (simp add: find_match_scan scan.simps[of source "max_copy_length i" 0 0 0])

lemma find_match_cases:
  assumes "find_match source i p = Inr (bl, bs)"
  shows "(bl, bs) = (0, 0) \<or>
         (p - lookback_range i \<le> bs \<and> bs < p \<and>
          extend_match source (max_copy_length i) bs p 0 = Inr bl)"
  using scan_spec[of source "max_copy_length i" p p "p - lookback_range i" "(0, 0)" "(bl, bs)"]
    assms max_copy_length_pos[of i]
  by (simp add: find_match_scan)

lemma find_match_bounds:
  assumes "find_match source i p = Inr (bl, bs)" "2 < bl"
  shows "bs < p" "p - bs \<le> lookback_range i" "bl \<le> max_copy_length i" "p + bl \<le> length source"
proof -
  from find_match_cases[OF assms(1)] assms(2)
  have w: "p - lookback_range i \<le> bs" "bs < p"
    and ex: "extend_match source (max_copy_length i) bs p 0 = Inr bl" by auto
  from w show "bs < p" "p - bs \<le> lookback_range i" by auto
  from extend_match_le_mcl[OF ex] show "bl \<le> max_copy_length i" .
  from extend_match_in_source[OF ex] assms(2) show "p + bl \<le> length source" by simp
qed

text \<open>
  Claim C9. In the match-extend loop every evaluated read of \<open>source[start + cur_len]\<close> and
  of \<open>source[src_pos + cur_len]\<close> is inside the input. In the model a read outside the
  input makes \<open>extend_match\<close> return \<open>Inl SourceOutOfBounds\<close>; for a start below the
  current position (all the scan ever passes) the loop returns a length instead, from any
  \<open>cur_len\<close>, for any input and any \<open>max_copy_length\<close>.
\<close>

theorem extend_match_reads_in_bounds:
  "start < p \<Longrightarrow> \<exists>l. extend_match source mcl start p cur_len = Inr l"
  using extend_match_total[of start p source mcl cur_len] by simp

theorem extend_match_reads_in_bounds_witness:
  "(0::nat) < 2 \<and> (\<exists>l. extend_match [1, 2, 1, 2] 18 0 2 0 = Inr l)"
  using extend_match_reads_in_bounds[of 0 2 "[1, 2, 1, 2]" 18 0] by simp

text \<open>
  Claim C2, as the source has it. Let \<open>(best_len, best_start)\<close> be what the match finder returns
  at position \<open>p\<close>, and let \<open>s\<close> be a start of the window \<open>[max(0, p - lookback_range), p)\<close>
  whose match has length \<open>l\<close>. Then \<open>best_start\<close> lies in the window and its match has length
  \<open>best_len\<close>, no start of the window has a longer match, and among the starts that reach
  \<open>best_len\<close> the finder returns the largest one when \<open>best_len < max_copy_length\<close>, and the
  smallest one when \<open>best_len = max_copy_length\<close>: the \<^verbatim>\<open>break\<close> of line 145 ends the scan
  at the first start that reaches \<open>max_copy_length\<close>. (An empty window, at \<open>p = 0\<close>, has no
  such \<open>s\<close>; there the finder returns \<open>(0, 0)\<close>, see \<open>find_match_at_start\<close>.)
\<close>

theorem match_finder_tie_break:
  assumes "find_match source i p = Inr (best_len, best_start)"
    and "p - lookback_range i \<le> s" "s < p"
    and "extend_match source (max_copy_length i) s p 0 = Inr l"
  shows "p - lookback_range i \<le> best_start \<and> best_start < p \<and>
         extend_match source (max_copy_length i) best_start p 0 = Inr best_len \<and>
         l \<le> best_len \<and>
         (l = best_len \<longrightarrow>
            (if best_len < max_copy_length i then s \<le> best_start else best_start \<le> s))"
proof -
  let ?lo = "p - lookback_range i" and ?mcl = "max_copy_length i"
  from assms(1) have sc: "scan source ?mcl p p ?lo (0, 0) = Inr (best_len, best_start)"
    by (simp add: find_match_scan)
  note sp = scan_spec[OF sc, simplified]
  from sp max_copy_length_pos[of i] have le: "best_len \<le> ?mcl"
    and mx: "l \<le> best_len"
    and lf: "best_len < ?mcl \<Longrightarrow> l = best_len \<Longrightarrow> s \<le> best_start"
    and rt: "best_len = ?mcl \<Longrightarrow> l = best_len \<Longrightarrow> best_start \<le> s"
    using assms(2-4) by auto
  have "?lo \<le> best_start \<and> best_start < p \<and>
        extend_match source ?mcl best_start p 0 = Inr best_len"
  proof (cases "(best_len, best_start) = (0, 0)")
    case False
    with find_match_cases[OF assms(1)] show ?thesis by auto
  next
    case True
    with mx have "l = 0" by simp
    with lf True max_copy_length_pos[of i] have "s = 0" by simp
    with True assms(2-4) \<open>l = 0\<close> show ?thesis by simp
  qed
  with mx lf rt le show ?thesis by auto
qed

theorem match_finder_tie_break_witness:
  "find_match [1, 2, 3, 7, 1, 2, 3, 8, 1, 2, 3] 0 8 = Inr (3, 4) \<and>
   extend_match [1, 2, 3, 7, 1, 2, 3, 8, 1, 2, 3] (max_copy_length 0) 0 8 0 = Inr 3 \<and>
   extend_match [1, 2, 3, 7, 1, 2, 3, 8, 1, 2, 3] (max_copy_length 0) 4 8 0 = Inr 3 \<and>
   (0::nat) \<le> 4"
proof -
  let ?S = "[1, 2, 3, 7, 1, 2, 3, 8, 1, 2, 3] :: byte list"
  have f: "find_match ?S 0 8 = Inr (3, 4)"
    by (simp add: find_match_def lookback_range_0 max_copy_length_0 scan.simps
        extend_match.simps src_read_def)
  have e: "extend_match ?S (max_copy_length 0) 0 8 0 = Inr 3"
    by (simp add: max_copy_length_0 extend_match.simps src_read_def)
  have w: "8 - lookback_range 0 \<le> (0::nat)" "(0::nat) < 8"
    by (simp_all add: lookback_range_0)
  from match_finder_tie_break[OF f w e] f e show ?thesis
    by (simp add: max_copy_length_0)
qed

text \<open>
  Claim C2 as stated fails on forty zero bytes. The first trial ends with length 12 and
  \<open>header_pos = 2\<close>, so the second trial (configuration 1, \<open>max_copy_length = 18\<close>) runs with
  bound 12; it queries the finder at position 19, where the starts 0 to 18 all reach the
  maximal length 18. The finder returns start 0, not the largest start 18, and the trial
  emits offset 19.
\<close>

theorem match_finder_largest_start_counterexample:
  "map_sum id (\<lambda>st. (clen st, header_pos st)) (trial (replicate 40 0) 0 0x1000 0) = Inr (12, 2) \<and>
   map_sum id emitted (trial (replicate 40 0) 1 12 2) =
     Inr [Literal 0, Match 1 18, Match 19 18, Match 1 3] \<and>
   find_match (replicate 40 0) 1 19 = Inr (18, 0) \<and>
   extend_match (replicate 40 0) (max_copy_length 1) 18 19 0 = Inr 18"
  by (simp add: eval_defs)

section \<open>Termination of a frame\<close>

lemma compress_single_byte:
  "compress [0x41] =
     Inr [Some 0, Some 0, Some 0xC1, Some 7, Some 0, Some 0xFE, Some 0x41, Some 0xC0]"
  by (simp add: compress_def frame_of_def eval_defs upt_8)

text \<open>
  The backward copy moves \<open>n\<close> cells up by three and reads only cells it has not yet
  overwritten.
\<close>

lemma relocate_spec:
  "relocate hp n d = Inr d' \<Longrightarrow>
     (\<forall>j<n. d' (hp + 3 + j) = d (hp + j)) \<and>
     (\<forall>k. k < hp + 3 \<or> hp + 3 + n \<le> k \<longrightarrow> d' k = d k)"
proof (induction n arbitrary: d)
  case 0
  then show ?case by simp
next
  case (Suc n)
  let ?d1 = "d(hp + 3 + n := d (hp + n))"
  from Suc.prems have rec: "relocate hp n ?d1 = Inr d'"
    by (auto simp: bnd_eq_Inr load_eq_Inr store_eq_Inr)
  from Suc.IH[OF rec] have a: "\<And>j. j < n \<Longrightarrow> d' (hp + 3 + j) = ?d1 (hp + j)"
    and b: "\<And>k. k < hp + 3 \<or> hp + 3 + n \<le> k \<Longrightarrow> d' k = ?d1 k" by auto
  have "d' (hp + 3 + j) = d (hp + j)" if "j < Suc n" for j
  proof (cases "j = n")
    case True
    with b[of "hp + 3 + n"] show ?thesis by simp
  next
    case False
    with that a[of j] show ?thesis by simp
  qed
  moreover have "d' k = d k" if "k < hp + 3 \<or> hp + 3 + Suc n \<le> k" for k
    using that b[of k] by auto
  ultimately show ?case by blast
qed

text \<open>
  Claim C6, as the source has it: \<open>compress(b"\x41")\<close> is the eight bytes
  \<open>00 00 C1 07 00 FE 41 C0\<close>. The first two bytes are \<open>header_pos - 2 = 0\<close>, the main body
  length; then the addendum header \<open>C1\<close>, the marker \<open>07 00\<close>, the relocated partial packet
  (header \<open>FE\<close>, literal \<open>41\<close>) and the trailing \<open>C0\<close>.
\<close>

theorem single_byte_frame:
  "compress [0x41] =
     Inr (map Some ([0x00, 0x00] @ [0xC1] @ [0x07, 0x00] @ [0xFE, 0x41] @ [0xC0]))"
  using compress_single_byte by simp

text \<open>Claim C6 as stated fails: the frame does not start with \<open>01 00\<close>.\<close>

theorem single_byte_frame_counterexample:
  "map_sum id (take 2) (compress [0x41]) \<noteq> Inr [Some 0x01, Some 0x00]"
  using compress_single_byte by simp

section \<open>Invariants of a trial\<close>

text \<open>
  A property of the trial state that every element, the termination code and the packet
  prologue preserve holds of whatever state the trial ends in.
\<close>

lemma bits_preserves:
  assumes enc: "\<And>bt st st'. P st \<Longrightarrow> bt < 8 \<Longrightarrow> src_pos st \<noteq> length source \<Longrightarrow>
                  encode_element source i bt st = Inr st' \<Longrightarrow> P st'"
    and fin: "\<And>bt st st'. P st \<Longrightarrow> bt < 8 \<Longrightarrow> src_pos st = length source \<Longrightarrow>
                  finish i bt st = Inr st' \<Longrightarrow> P st'"
    and run: "bits source i bt st = Inr st'" and start: "P st"
  shows "P st'"
proof -
  have "bits s k bt st = Inr st' \<Longrightarrow> s = source \<Longrightarrow> k = i \<Longrightarrow> P st \<Longrightarrow> P st'" for s k
  proof (induction s k bt st rule: bits.induct)
    case (1 s k bt st)
    note unf = bits.simps[of source i bt st]
    from "1.prems" have r: "bits source i bt st = Inr st'" and s: "s = source" and k: "k = i"
      and p: "P st" by simp_all
    show ?case
    proof (cases "bt < 8")
      case False
      with r p unf show ?thesis by simp
    next
      case True
      show ?thesis
      proof (cases "src_pos st = length source")
        case atend: True
        with True r unf have "finish i bt st = Inr st'" by simp
        from fin[OF p True atend this] show ?thesis .
      next
        case False
        with True r unf obtain st1 where e: "encode_element source i bt st = Inr st1"
          and b: "bits source i (bt + 1) st1 = Inr st'"
          by (auto split: sum.splits)
        from enc[OF p True False e] have p1: "P st1" .
        from False s have ne: "src_pos st \<noteq> length s" by simp
        from e s k have e': "encode_element s k bt st = Inr st1" by simp
        from b s k have b': "bits s k (bt + 1) st1 = Inr st'" by simp
        from "1.IH"[OF True ne e' b' s k p1] show ?thesis .
      qed
    qed
  qed
  from this[OF run refl refl start] show ?thesis .
qed

lemma packets_preserves:
  assumes enc: "\<And>bt st st'. P st \<Longrightarrow> bt < 8 \<Longrightarrow> src_pos st \<noteq> length source \<Longrightarrow>
                  encode_element source i bt st = Inr st' \<Longrightarrow> P st'"
    and fin: "\<And>bt st st'. P st \<Longrightarrow> bt < 8 \<Longrightarrow> src_pos st = length source \<Longrightarrow>
                  finish i bt st = Inr st' \<Longrightarrow> P st'"
    and pro: "\<And>st d. P st \<Longrightarrow> \<not> is_done st \<Longrightarrow>
                  store (data st) (out_pos st) (Some 0) = Inr d \<Longrightarrow>
                  P (st\<lparr>header_pos := out_pos st, data := d, out_pos := out_pos st + 1\<rparr>)"
    and run: "packets source i best_size st = Inr st'" and start: "P st"
  shows "P st'"
proof -
  have "packets s k best_size st = Inr st' \<Longrightarrow> s = source \<Longrightarrow> k = i \<Longrightarrow> P st \<Longrightarrow> P st'"
    for s k
  proof (induction s k best_size st rule: packets.induct)
    case (1 s k best_size st)
    note unf = packets.simps[of source i best_size st]
    from "1.prems" have r: "packets source i best_size st = Inr st'" and s: "s = source"
      and k: "k = i" and p: "P st" by simp_all
    show ?case
    proof (cases "is_done st \<or> best_size \<le> out_pos st")
      case True
      with r p unf show ?thesis by (auto split: if_splits)
    next
      case False
      then have nd: "\<not> is_done st" and nb: "\<not> best_size \<le> out_pos st" by simp_all
      with r unf obtain st1 where pk: "packet source i st = Inr st1"
        and rec: "packets source i best_size st1 = Inr st'"
        by (auto split: sum.splits)
      from pk obtain d where w: "store (data st) (out_pos st) (Some 0) = Inr d" and
        b: "bits source i 0 (st\<lparr>header_pos := out_pos st, data := d, out_pos := out_pos st + 1\<rparr>)
              = Inr st1"
        by (auto simp: packet_def bnd_eq_Inr)
      from bits_preserves[of P source i, OF enc fin b pro[OF p nd w]] have p1: "P st1" .
      from pk s k have pk': "packet s k st = Inr st1" by simp
      from rec s k have rec': "packets s k best_size st1 = Inr st'" by simp
      from "1.IH"[OF nd nb pk' rec' s k p1] show ?thesis .
    qed
  qed
  from this[OF run refl refl start] show ?thesis .
qed

lemma trial_preserves:
  assumes enc: "\<And>bt st st'. P st \<Longrightarrow> bt < 8 \<Longrightarrow> src_pos st \<noteq> length source \<Longrightarrow>
                  encode_element source i bt st = Inr st' \<Longrightarrow> P st'"
    and fin: "\<And>bt st st'. P st \<Longrightarrow> bt < 8 \<Longrightarrow> src_pos st = length source \<Longrightarrow>
                  finish i bt st = Inr st' \<Longrightarrow> P st'"
    and pro: "\<And>st d. P st \<Longrightarrow> \<not> is_done st \<Longrightarrow>
                  store (data st) (out_pos st) (Some 0) = Inr d \<Longrightarrow>
                  P (st\<lparr>header_pos := out_pos st, data := d, out_pos := out_pos st + 1\<rparr>)"
    and run: "trial source i best_size hp = Inr st" and ini: "P (init_state hp)"
  shows "P st"
proof -
  from run have "packets source i best_size (init_state hp) = Inr st" by (simp add: trial_def)
  from packets_preserves[of P source i best_size "init_state hp" st, OF enc fin pro this ini]
  show ?thesis .
qed




lemma encode_element_emits:
  assumes "encode_element source i bt st = Inr st'"
  shows "is_done st' = is_done st \<and>
         ((\<exists>b. emitted st' = emitted st @ [Literal b] \<and> src_pos st' = src_pos st + 1) \<or>
          (\<exists>bl bs. find_match source i (src_pos st) = Inr (bl, bs) \<and> 2 < bl \<and>
             emitted st' = emitted st @ [Match (src_pos st - bs) bl] \<and>
             src_pos st' = src_pos st + bl))"
  using assms
  by (auto simp: encode_element_def bnd_eq_Inr Let_def split: if_splits prod.splits)

lemma finish_keeps:
  "finish i bt st = Inr st' \<Longrightarrow> emitted st' = emitted st \<and> src_pos st' = src_pos st"
  by (auto simp: finish_def bnd_eq_Inr Let_def split: if_splits)

text \<open>
  Claim C7. For every input and every trial that completes without aborting (\<open>done\<close> is set),
  the source bytes consumed over all emitted elements, 1 per literal and \<open>best_len\<close> per
  match, add up to the length of the input. The elements are those logged by
  \<open>encode_element\<close>, in order.
\<close>

theorem consumption_equals_input_length:
  assumes "trial source i best_size hp = Inr st" "is_done st"
  shows "sum_list (map consumed (emitted st)) = length source"
proof -
  let ?P = "\<lambda>st. sum_list (map consumed (emitted st)) = src_pos st \<and>
              (is_done st \<longrightarrow> src_pos st = length source)"
  have "?P st"
  proof (rule trial_preserves[of ?P source i best_size hp st])
    fix bt st st'
    assume "?P st" "src_pos st \<noteq> length source" "encode_element source i bt st = Inr st'"
    with encode_element_emits[of source i bt st st'] show "?P st'" by auto
  next
    fix bt st st'
    assume "?P st" "src_pos st = length source" "finish i bt st = Inr st'"
    with finish_keeps[of i bt st st'] show "?P st'" by auto
  next
    fix st :: enc_state and d
    assume "?P st" "\<not> is_done st"
    then show "?P (st\<lparr>header_pos := out_pos st, data := d, out_pos := out_pos st + 1\<rparr>)"
      by simp
  next
    show "trial source i best_size hp = Inr st" by (rule assms(1))
  next
    show "?P (init_state hp)" by (simp add: init_state_def)
  qed
  with assms(2) show ?thesis by simp
qed

theorem consumption_equals_input_length_witness:
  "\<exists>st. trial [1, 2, 3, 1, 2, 3, 1, 2, 3] 0 0x1000 0 = Inr st \<and> is_done st \<and>
        emitted st = [Literal 1, Literal 2, Literal 3, Match 3 6] \<and>
        sum_list (map consumed (emitted st)) = 9"
proof -
  let ?S = "[1, 2, 3, 1, 2, 3, 1, 2, 3] :: byte list"
  have "\<exists>st. trial ?S 0 0x1000 0 = Inr st \<and> is_done st \<and>
          emitted st = [Literal 1, Literal 2, Literal 3, Match 3 6]"
    by (simp add: eval_defs)
  then obtain st where t: "trial ?S 0 0x1000 0 = Inr st" and d: "is_done st"
    and e: "emitted st = [Literal 1, Literal 2, Literal 3, Match 3 6]" by blast
  from consumption_equals_input_length[OF t d] t d e show ?thesis by simp
qed



section \<open>Memory safety\<close>

text \<open>
  Every step of a trial stays inside the source and inside the output array, as long as the
  header of the current packet lies below \<open>0x1000\<close> (the loop checks \<open>out_pos\<close> against
  \<open>best_size \<le> 0x1000\<close> before each packet) and the packet has grown by at most two bytes
  per element.
\<close>

lemma relocate_total: "hp + 3 + n \<le> 0x10000 \<Longrightarrow> \<exists>d'. relocate hp n d = Inr d'"
proof (induction n arbitrary: d)
  case 0
  show ?case by simp
next
  case (Suc n)
  from Suc.prems have "hp + 3 + n \<le> 0x10000" by simp
  from Suc.IH[OF this] Suc.prems show ?case by (simp add: load_def store_def)
qed

lemma finish_total:
  assumes "header_pos st \<le> out_pos st" "out_pos st + 3 < 0x10000"
  shows "\<exists>st'. finish i bt st = Inr st' \<and> clen st' \<le> out_pos st + 4 \<and> src_pos st' = src_pos st"
proof (cases "bt = 0")
  case True
  with assms show ?thesis by (simp add: finish_def store_def)
next
  case False
  let ?d0 = "(data st)(header_pos st :=
               map_option (\<lambda>b. b OR of_nat (push_bit bt 0xFF AND 0xFF)) (data st (header_pos st)))"
  from assms have "header_pos st + 3 + (out_pos st - header_pos st) \<le> 0x10000" by simp
  from relocate_total[OF this, of ?d0] obtain d1
    where "relocate (header_pos st) (out_pos st - header_pos st) ?d0 = Inr d1" ..
  with False assms show ?thesis
    by (simp add: finish_def Let_def or_store_def load_def store_def)
qed

lemma encode_element_total:
  assumes "src_pos st < length source" "header_pos st < 0x10000" "out_pos st + 1 < 0x10000"
  shows "\<exists>st'. encode_element source i bt st = Inr st' \<and> src_pos st' \<le> length source \<and>
           out_pos st' \<le> out_pos st + 2 \<and> header_pos st' = header_pos st \<and> clen st' = clen st"
proof -
  from find_match_total[of source i "src_pos st"] obtain bl bs
    where f: "find_match source i (src_pos st) = Inr (bl, bs)" by force
  show ?thesis
  proof (cases "2 < bl")
    case True
    from find_match_bounds(4)[OF f True] True f assms show ?thesis
      by (simp add: encode_element_def Let_def or_store_def load_def store_def)
  next
    case False
    with f assms show ?thesis
      by (simp add: encode_element_def Let_def src_read_def store_def)
  qed
qed

lemma bits_total:
  assumes "src_pos st \<le> length source" "bt \<le> 8" "header_pos st < 0x1000"
    "header_pos st \<le> out_pos st" "out_pos st \<le> header_pos st + 1 + 2 * bt" "clen st \<le> 0x10000"
  shows "\<exists>st'. bits source i bt st = Inr st' \<and> src_pos st' \<le> length source \<and> clen st' \<le> 0x10000"
  using assms
proof (induction source i bt st rule: bits.induct)
  case (1 source i bt st)
  note unf = bits.simps[of source i bt st]
  show ?case
  proof (cases "bt < 8")
    case False
    with "1.prems" unf show ?thesis by simp
  next
    case True
    show ?thesis
    proof (cases "src_pos st = length source")
      case atend: True
      from "1.prems" True have b: "header_pos st \<le> out_pos st" "out_pos st + 3 < 0x10000"
        by simp_all
      from finish_total[OF b, of i bt] b atend True unf show ?thesis by auto
    next
      case False
      with "1.prems" True have "src_pos st < length source" "header_pos st < 0x10000"
        "out_pos st + 1 < 0x10000" by simp_all
      from encode_element_total[OF this, of i bt] obtain st1
        where e: "encode_element source i bt st = Inr st1" and s1: "src_pos st1 \<le> length source"
          and o1: "out_pos st1 \<le> out_pos st + 2" and h1: "header_pos st1 = header_pos st"
          and c1: "clen st1 = clen st" by blast
      from encode_element_out_pos[OF e] have o2: "out_pos st < out_pos st1" .
      have "\<exists>st'. bits source i (bt + 1) st1 = Inr st' \<and> src_pos st' \<le> length source \<and>
              clen st' \<le> 0x10000"
        using "1.prems" True s1 o1 o2 h1 c1 by (intro "1.IH"[OF True False e]) simp_all
      with True False e unf show ?thesis by simp
    qed
  qed
qed

lemma packet_total:
  assumes "src_pos st \<le> length source" "out_pos st < 0x1000" "clen st \<le> 0x10000"
  shows "\<exists>st'. packet source i st = Inr st' \<and> src_pos st' \<le> length source \<and> clen st' \<le> 0x10000"
proof -
  let ?st = "st\<lparr>header_pos := out_pos st, data := (data st)(out_pos st := Some 0),
                out_pos := out_pos st + 1\<rparr>"
  from assms have "\<exists>st'. bits source i 0 ?st = Inr st' \<and> src_pos st' \<le> length source \<and>
      clen st' \<le> 0x10000"
    by (intro bits_total) simp_all
  with assms(2) show ?thesis by (simp add: packet_def store_def)
qed

lemma packets_total:
  assumes "src_pos st \<le> length source" "best_size \<le> 0x1000" "clen st \<le> 0x10000"
  shows "\<exists>st'. packets source i best_size st = Inr st' \<and> clen st' \<le> 0x10000"
  using assms
proof (induction source i best_size st rule: packets.induct)
  case (1 source i best_size st)
  note unf = packets.simps[of source i best_size st]
  show ?case
  proof (cases "is_done st \<or> best_size \<le> out_pos st")
    case True
    with "1.prems" unf show ?thesis by auto
  next
    case False
    then have nd: "\<not> is_done st" and nb: "\<not> best_size \<le> out_pos st" by simp_all
    with "1.prems" have "out_pos st < 0x1000" by simp
    from packet_total[OF "1.prems"(1) this "1.prems"(3), of i] obtain st1
      where pk: "packet source i st = Inr st1" and s1: "src_pos st1 \<le> length source"
        and c1: "clen st1 \<le> 0x10000" by blast
    from "1.IH"[OF nd nb pk s1 "1.prems"(2) c1] nd nb pk unf show ?thesis by simp
  qed
qed

lemma trial_total:
  "best_size \<le> 0x1000 \<Longrightarrow> \<exists>st. trial source i best_size hp = Inr st \<and> clen st \<le> 0x10000"
  unfolding trial_def by (rule packets_total) (simp_all add: init_state_def)

text \<open>
  Claim C10. Every write into a trial's output array has an index below the capacity
  \<open>0x10000\<close>. In the model a write (or read) outside an array makes the trial, and with it
  \<open>compress\<close>, return an error; \<open>compress\<close> returns a frame for every input, also for those
  whose frame is longer than \<open>0x1000\<close> bytes.
\<close>

theorem writes_in_bounds: "\<exists>frame. compress source = Inr frame"
proof -
  from trial_total[of "0x1000" source 0 0] obtain st0
    where t0: "trial source 0 0x1000 0 = Inr st0" and c0: "clen st0 \<le> 0x10000" by auto
  let ?b = "if clen st0 < 0x1000 then clen st0 else 0x1000"
  have "?b \<le> 0x1000" by simp
  from trial_total[OF this, of source 1 "header_pos st0"] obtain st1
    where t1: "trial source 1 ?b (header_pos st0) = Inr st1" and c1: "clen st1 \<le> 0x10000"
    by auto
  from t0 t1 c0 c1 show ?thesis
    by (simp add: compress_def run_trials_def Let_def frame_of_def)
qed

section \<open>The bound of the second trial\<close>

text \<open>
  A trial run with a bound \<open>b\<close> ends in a state from which the trial with a larger bound
  \<open>b'\<close> continues: the two runs agree up to the packet at which the smaller bound stops.
\<close>

lemma packets_done: "is_done st \<Longrightarrow> packets source i b st = Inr st"
  by (simp add: packets.simps)

lemma packets_bound_mono:
  "packets source i b st = Inr st' \<Longrightarrow> b \<le> b' \<Longrightarrow>
     packets source i b' st = packets source i b' st'"
proof (induction source i b st rule: packets.induct)
  case (1 source i b st)
  note unf = packets.simps[of source i b st]
  show ?case
  proof (cases "is_done st \<or> b \<le> out_pos st")
    case True
    with "1.prems" unf have "st' = st" by (auto split: if_splits)
    then show ?thesis by simp
  next
    case False
    then have nd: "\<not> is_done st" and nb: "\<not> b \<le> out_pos st" by simp_all
    with "1.prems"(1) unf obtain st1 where pk: "packet source i st = Inr st1"
      and rec: "packets source i b st1 = Inr st'"
      by (auto split: sum.splits)
    from nb "1.prems"(2) have "\<not> b' \<le> out_pos st" by simp
    with nd pk have "packets source i b' st = packets source i b' st1"
      by (simp add: packets.simps[of source i b' st])
    with "1.IH"[OF nd nb pk rec "1.prems"(2)] show ?thesis by simp
  qed
qed

lemma packets_result:
  "packets source i b st = Inr st' \<Longrightarrow> is_done st' \<or> b \<le> out_pos st'"
proof (induction source i b st rule: packets.induct)
  case (1 source i b st)
  note unf = packets.simps[of source i b st]
  show ?case
  proof (cases "is_done st \<or> b \<le> out_pos st")
    case True
    with "1.prems" unf have "st' = st" by (auto split: if_splits)
    with True show ?thesis by simp
  next
    case False
    then have nd: "\<not> is_done st" and nb: "\<not> b \<le> out_pos st" by simp_all
    with "1.prems"(1) unf obtain st1 where pk: "packet source i st = Inr st1"
      and rec: "packets source i b st1 = Inr st'"
      by (auto split: sum.splits)
    from "1.IH"[OF nd nb pk rec] show ?thesis .
  qed
qed

lemma encode_element_keeps:
  "encode_element source i bt st = Inr st' \<Longrightarrow>
     clen st' = clen st \<and> is_done st' = is_done st \<and> header_pos st' = header_pos st"
  by (auto simp: encode_element_def bnd_eq_Inr Let_def split: if_splits prod.splits)

lemma packets_abort_clen:
  assumes "packets source i b st = Inr st'" "\<not> is_done st'"
  shows "clen st' = clen st"
proof -
  let ?P = "\<lambda>s. \<not> is_done s \<longrightarrow> clen s = clen st"
  have "?P st'"
  proof (rule packets_preserves[of ?P source i b st st'])
    fix bt s s'
    assume "?P s" "encode_element source i bt s = Inr s'"
    with encode_element_keeps[of source i bt s s'] show "?P s'" by auto
  next
    fix bt s s'
    assume "finish i bt s = Inr s'"
    from finish_done[OF this] show "?P s'" by simp
  next
    fix s :: enc_state and d
    assume "?P s" "\<not> is_done s"
    then show "?P (s\<lparr>header_pos := out_pos s, data := d, out_pos := out_pos s + 1\<rparr>)" by simp
  next
    show "packets source i b st = Inr st'" by (rule assms(1))
  next
    show "?P st" by simp
  qed
  with assms(2) show ?thesis by simp
qed

lemma finish_clen:
  "finish i bt st = Inr st' \<Longrightarrow>
     clen st' = (if bt = 0 then header_pos st + 1 else out_pos st + 4)"
  by (auto simp: finish_def bnd_eq_Inr Let_def split: if_splits)

lemma bits_done_clen:
  "bits source i bt st = Inr st' \<Longrightarrow> \<not> is_done st \<Longrightarrow> is_done st' \<Longrightarrow>
     header_pos st \<le> out_pos st \<Longrightarrow> header_pos st < clen st'"
proof (induction source i bt st rule: bits.induct)
  case (1 source i bt st)
  note unf = bits.simps[of source i bt st]
  show ?case
  proof (cases "bt < 8")
    case False
    with "1.prems" unf show ?thesis by simp
  next
    case True
    show ?thesis
    proof (cases "src_pos st = length source")
      case atend: True
      with True "1.prems"(1) unf have "finish i bt st = Inr st'" by simp
      from finish_clen[OF this] "1.prems"(4) show ?thesis by (simp split: if_splits)
    next
      case False
      with True "1.prems"(1) unf obtain st1 where e: "encode_element source i bt st = Inr st1"
        and b: "bits source i (bt + 1) st1 = Inr st'"
        by (auto split: sum.splits)
      from encode_element_keeps[OF e] encode_element_out_pos[OF e] "1.prems"
      have "\<not> is_done st1" "header_pos st1 \<le> out_pos st1" "header_pos st1 = header_pos st"
        by simp_all
      with "1.IH"[OF True False e b _ "1.prems"(3)] show ?thesis by simp
    qed
  qed
qed

lemma packet_done_clen:
  assumes "packet source i st = Inr st'" "\<not> is_done st" "is_done st'"
  shows "out_pos st < clen st'"
proof -
  from assms(1) obtain d where
    b: "bits source i 0 (st\<lparr>header_pos := out_pos st, data := d, out_pos := out_pos st + 1\<rparr>)
          = Inr st'"
    by (auto simp: packet_def bnd_eq_Inr)
  from bits_done_clen[OF b _ assms(3)] assms(2) show ?thesis by simp
qed

lemma packets_done_clen:
  "packets source i b st = Inr st' \<Longrightarrow> \<not> is_done st \<Longrightarrow> is_done st' \<Longrightarrow>
     out_pos st < clen st'"
proof (induction source i b st rule: packets.induct)
  case (1 source i b st)
  note unf = packets.simps[of source i b st]
  show ?case
  proof (cases "b \<le> out_pos st")
    case True
    with "1.prems" unf show ?thesis by (auto split: if_splits)
  next
    case False
    with "1.prems"(1,2) unf obtain st1 where pk: "packet source i st = Inr st1"
      and rec: "packets source i b st1 = Inr st'"
      by (auto split: sum.splits)
    show ?thesis
    proof (cases "is_done st1")
      case True
      with rec have "st' = st1" by (simp add: packets.simps[of source i b st1])
      with packet_done_clen[OF pk "1.prems"(2) True] show ?thesis by simp
    next
      case nd1: False
      from packet_progress[OF pk] nd1 have "out_pos st < out_pos st1" by simp
      with "1.IH"[OF "1.prems"(2) False pk rec nd1 "1.prems"(3)] show ?thesis by simp
    qed
  qed
qed

text \<open>
  Claim C4. Running the second trial with the bound lowered to the first trial's length
  selects the same trial, with the same array contents and length, as running both trials
  with the bound \<open>0x1000\<close>; the returned bytes are the same. Where the lowered bound stops the
  second trial, the untightened second trial either stops at \<open>0x1000\<close> as well or finishes
  with a length above the first trial's, so the first trial is selected either way.
\<close>

theorem bound_tightening_equivalent:
  "run_trials source = run_trials_untightened source \<and>
   compress source = compress_untightened source"
proof -
  from trial_total[of "0x1000" source 0 0] obtain st0
    where t0: "trial source 0 0x1000 0 = Inr st0" and c0: "clen st0 \<le> 0x10000" by auto
  have "run_trials source = run_trials_untightened source"
  proof (cases "clen st0 < 0x1000")
    case False
    with t0 show ?thesis by (simp add: run_trials_def run_trials_untightened_def Let_def)
  next
    case True
    let ?hp = "header_pos st0"
    from True trial_total[of "clen st0" source 1 ?hp] obtain st1
      where t1: "trial source 1 (clen st0) ?hp = Inr st1" by auto
    from trial_total[of "0x1000" source 1 ?hp] obtain st1'
      where t1': "trial source 1 0x1000 ?hp = Inr st1'" by auto
    from t1 have p1: "packets source 1 (clen st0) (init_state ?hp) = Inr st1"
      by (simp add: trial_def)
    from t1' have p1': "packets source 1 0x1000 (init_state ?hp) = Inr st1'"
      by (simp add: trial_def)
    from packets_bound_mono[OF p1, of "0x1000"] True p1'
    have cont: "packets source 1 0x1000 st1 = Inr st1'" by simp
    have sel: "(clen st0 \<le> clen st1 \<and> clen st0 \<le> clen st1') \<or> st1 = st1'"
    proof (cases "is_done st1")
      case True
      with cont packets_done[of st1 source 1 "0x1000"] show ?thesis by simp
    next
      case nd: False
      from packets_abort_clen[OF p1 nd] have l1: "clen st1 = 0x10000"
        by (simp add: init_state_def)
      from packets_result[OF p1] nd have o1: "clen st0 \<le> out_pos st1" by simp
      have "clen st0 \<le> clen st1'"
      proof (cases "is_done st1'")
        case True
        from packets_done_clen[OF cont nd True] o1 show ?thesis by simp
      next
        case False
        from packets_abort_clen[OF cont False] l1 c0 show ?thesis by simp
      qed
      with l1 c0 show ?thesis by simp
    qed
    from t0 t1 t1' True sel show ?thesis
      by (auto simp: run_trials_def run_trials_untightened_def Let_def)
  qed
  then show ?thesis by (simp add: compress_def compress_untightened_def)
qed

section \<open>Trials that stop at the output bound\<close>

text \<open>
  A trial that leaves its loop with \<open>done\<close> unset has written neither its recorded length
  nor the two cells of the main body length.
\<close>

lemma encode_element_length_cells:
  assumes "encode_element source i bt st = Inr st'" "2 \<le> out_pos st"
    "data st 0 = None" "data st 1 = None"
  shows "2 \<le> out_pos st' \<and> data st' 0 = None \<and> data st' 1 = None"
  using assms
  by (auto simp: encode_element_def bnd_eq_Inr Let_def or_store_eq_Inr store_eq_Inr
      split: if_splits prod.splits)

lemma trial_abort_length_cells:
  assumes "trial source i best_size hp = Inr st" "\<not> is_done st"
  shows "data st 0 = None \<and> data st 1 = None"
proof -
  let ?P = "\<lambda>s. is_done s \<or> (2 \<le> out_pos s \<and> data s 0 = None \<and> data s 1 = None)"
  have "?P st"
  proof (rule trial_preserves[of ?P source i best_size hp st])
    fix bt s s'
    assume "?P s" "encode_element source i bt s = Inr s'"
    with encode_element_length_cells[of source i bt s s'] encode_element_keeps[of source i bt s s']
    show "?P s'" by auto
  next
    fix bt s s'
    assume "finish i bt s = Inr s'"
    from finish_done[OF this] show "?P s'" by simp
  next
    fix s :: enc_state and d
    assume "?P s" "\<not> is_done s" "store (data s) (out_pos s) (Some 0) = Inr d"
    then show "?P (s\<lparr>header_pos := out_pos s, data := d, out_pos := out_pos s + 1\<rparr>)"
      by (auto simp: store_eq_Inr)
  next
    show "trial source i best_size hp = Inr st" by (rule assms(1))
  next
    show "?P (init_state hp)" by (simp add: init_state_def)
  qed
  with assms(2) show ?thesis by simp
qed

lemma trial_abort_clen:
  assumes "trial source i best_size hp = Inr st" "\<not> is_done st"
  shows "clen st = 0x10000"
proof -
  from assms(1) have "packets source i best_size (init_state hp) = Inr st" by (simp add: trial_def)
  from packets_abort_clen[OF this assms(2)] show ?thesis by (simp add: init_state_def)
qed

text \<open>
  Claim C5. For every input on which both trials stop at the output bound (each leaves its
  loop with \<open>done\<close> unset), both recorded lengths are still the sentinel \<open>0x10000\<close>, the
  selection rule picks trial 0, and \<open>compress\<close> returns the first \<open>0x10000\<close> cells of that
  trial's array instead of an error. The array is incompletely populated: its cells 0 and 1,
  kept for the main body length, were never written.
\<close>

theorem both_trials_abort:
  assumes "trial source 0 0x1000 0 = Inr st0" "\<not> is_done st0"
    and "trial source 1 0x1000 (header_pos st0) = Inr st1" "\<not> is_done st1"
  shows "clen st0 = 0x10000 \<and> clen st1 = 0x10000 \<and>
         run_trials source = Inr (0, st0) \<and>
         compress source = Inr (map (data st0) [0..<0x10000]) \<and>
         data st0 0 = None \<and> data st0 1 = None"
proof -
  from trial_abort_clen[OF assms(1,2)] have c0: "clen st0 = 0x10000" .
  from trial_abort_clen[OF assms(3,4)] have c1: "clen st1 = 0x10000" .
  from assms(1,3) c0 c1 have r: "run_trials source = Inr (0, st0)"
    by (simp add: run_trials_def Let_def)
  with c0 have "compress source = Inr (map (data st0) [0..<0x10000])"
    by (simp add: compress_def frame_of_def)
  with c0 c1 r trial_abort_length_cells[OF assms(1,2)] show ?thesis by simp
qed

subsection \<open>An input without a repeated pair of bytes\<close>

text \<open>
  The bytes \<open>k mod 128\<close> at the even positions \<open>2k\<close> and \<open>128 + k div 128\<close> at the odd
  positions \<open>2k + 1\<close>: no two adjacent bytes occur twice among the first 3640, so no match is
  longer than one byte and every element is a literal. A packet of eight literals takes nine
  bytes of output, and 455 packets reach \<open>out_pos = 4097\<close>.
\<close>

definition incompressible_byte :: "nat \<Rightarrow> byte" where
  "incompressible_byte p =
     (if even p then of_nat ((p div 2) mod 128) else of_nat (128 + (p div 2) div 128))"

definition incompressible_input :: "nat \<Rightarrow> byte list" where
  "incompressible_input n = map incompressible_byte [0..<n]"

lemma byte_of_nat_inj:
  assumes "x < 256" "y < 256" "(of_nat x :: byte) = of_nat y"
  shows "x = y"
proof -
  from assms(3) have "unat (of_nat x :: byte) = unat (of_nat y :: byte)" by simp
  with assms(1,2) show ?thesis by (simp add: unat_of_nat)
qed

lemma div_mod_128_eq: "a div 128 = b div 128 \<Longrightarrow> a mod 128 = b mod 128 \<Longrightarrow> a = (b::nat)"
  by (metis div_mult_mod_eq)

lemma suc_mod_128_eq:
  assumes "Suc a mod 128 = Suc b mod 128"
  shows "a mod 128 = b mod 128"
proof -
  have "a mod 128 < 128" "b mod 128 < 128" by simp_all
  with assms show ?thesis by (simp add: mod_Suc split: if_splits)
qed

lemma even_byte: "incompressible_byte (2 * a) = of_nat (a mod 128)"
  by (simp add: incompressible_byte_def)

lemma odd_byte: "incompressible_byte (Suc (2 * a)) = of_nat (128 + a div 128)"
  by (simp add: incompressible_byte_def)

lemma incompressible_pairs:
  assumes "q < p" "p + 1 < 3640"
  shows "incompressible_byte q \<noteq> incompressible_byte p \<or>
         incompressible_byte (q + 1) \<noteq> incompressible_byte (p + 1)"
proof (rule ccontr)
  assume "\<not> ?thesis"
  then have e0: "incompressible_byte q = incompressible_byte p"
    and e1: "incompressible_byte (Suc q) = incompressible_byte (Suc p)" by simp_all
  obtain a where a: "q = 2 * a \<or> q = Suc (2 * a)" by (metis evenE oddE Suc_eq_plus1)
  obtain b where b: "p = 2 * b \<or> p = Suc (2 * b)" by (metis evenE oddE Suc_eq_plus1)
  from assms a b have ab: "a < 1820" "b < 1820" by auto
  then have lo: "a mod 128 < 256" "b mod 128 < 256" "Suc a mod 128 < 256" "Suc b mod 128 < 256"
    and hi: "128 + a div 128 < 256" "128 + b div 128 < 256" by simp_all
  have m: "a mod 128 < 128" "b mod 128 < 128" by simp_all
  from a b show False
  proof (elim disjE)
    assume q: "q = 2 * a" and p: "p = 2 * b"
    from e0 q p have "(of_nat (a mod 128) :: byte) = of_nat (b mod 128)" by (simp add: even_byte)
    from byte_of_nat_inj[OF lo(1,2) this] have 1: "a mod 128 = b mod 128" .
    from e1 q p have "(of_nat (128 + a div 128) :: byte) = of_nat (128 + b div 128)"
      by (simp only: odd_byte)
    from byte_of_nat_inj[OF hi this] have "a div 128 = b div 128" by simp
    from div_mod_128_eq[OF this 1] q p assms(1) show False by simp
  next
    assume q: "q = 2 * a" and p: "p = Suc (2 * b)"
    from e0 q p have "(of_nat (a mod 128) :: byte) = of_nat (128 + b div 128)"
      by (simp only: even_byte odd_byte)
    from byte_of_nat_inj[OF lo(1) hi(2) this] m show False by simp
  next
    assume q: "q = Suc (2 * a)" and p: "p = 2 * b"
    from e0 q p have "(of_nat (128 + a div 128) :: byte) = of_nat (b mod 128)"
      by (simp only: even_byte odd_byte)
    from byte_of_nat_inj[OF hi(1) lo(2) this] m show False by simp
  next
    assume q: "q = Suc (2 * a)" and p: "p = Suc (2 * b)"
    from e0 q p have "(of_nat (128 + a div 128) :: byte) = of_nat (128 + b div 128)"
      by (simp only: odd_byte)
    from byte_of_nat_inj[OF hi this] have 1: "a div 128 = b div 128" by simp
    have s: "Suc (Suc (2 * n)) = 2 * Suc n" for n by simp
    from e1 q p have "(of_nat (Suc a mod 128) :: byte) = of_nat (Suc b mod 128)"
      by (simp only: s even_byte)
    from byte_of_nat_inj[OF lo(3,4) this] have "Suc a mod 128 = Suc b mod 128" .
    from div_mod_128_eq[OF 1 suc_mod_128_eq[OF this]] q p assms(1) show False by simp
  qed
qed

lemma extend_match_short:
  assumes "q < p"
    "source ! q \<noteq> source ! p \<or> length source \<le> p + 1 \<or> source ! (q + 1) \<noteq> source ! (p + 1)"
  shows "\<exists>l\<le>1. extend_match source mcl q p 0 = Inr l"
proof (cases "p < length source \<and> 0 < mcl")
  case False
  then show ?thesis by (auto simp: extend_match.simps[of source mcl q p 0])
next
  case True
  with assms(1) have rd: "src_read source q = Inr (source ! q)"
    "src_read source p = Inr (source ! p)" by (simp_all add: src_read_def)
  show ?thesis
  proof (cases "source ! q = source ! p")
    case False
    with True rd show ?thesis by (simp add: extend_match.simps[of source mcl q p 0])
  next
    case eq: True
    with True rd have u: "extend_match source mcl q p 0 = extend_match source mcl q p (Suc 0)"
      by (simp add: extend_match.simps[of source mcl q p 0])
    from eq assms(2) have "length source \<le> p + 1 \<or> source ! (q + 1) \<noteq> source ! (p + 1)"
      by simp
    with assms(1) have "extend_match source mcl q p (Suc 0) = Inr (Suc 0)"
      by (auto simp: extend_match.simps[of source mcl q p "Suc 0"] src_read_def)
    with u show ?thesis by simp
  qed
qed

lemma find_match_literal:
  assumes "\<And>q. q < p \<Longrightarrow> source ! q \<noteq> source ! p \<or> length source \<le> p + 1 \<or>
                   source ! (q + 1) \<noteq> source ! (p + 1)"
  shows "\<exists>bl bs. find_match source i p = Inr (bl, bs) \<and> bl \<le> 2"
proof -
  from find_match_total[of source i p] obtain bl bs
    where f: "find_match source i p = Inr (bl, bs)" by force
  from find_match_cases[OF f] have "bl \<le> 2"
  proof
    assume "(bl, bs) = (0, 0)"
    then show ?thesis by simp
  next
    assume w: "p - lookback_range i \<le> bs \<and> bs < p \<and>
               extend_match source (max_copy_length i) bs p 0 = Inr bl"
    with extend_match_short[OF _ assms, of bs "max_copy_length i"] show ?thesis by auto
  qed
  with f show ?thesis by blast
qed

lemma length_incompressible_input: "length (incompressible_input n) = n"
  by (simp add: incompressible_input_def)

lemma incompressible_no_match:
  assumes "n \<le> 3640"
  shows "\<exists>bl bs. find_match (incompressible_input n) i p = Inr (bl, bs) \<and> bl \<le> 2"
proof (rule find_match_literal)
  fix q assume qp: "q < p"
  show "incompressible_input n ! q \<noteq> incompressible_input n ! p \<or>
        length (incompressible_input n) \<le> p + 1 \<or>
        incompressible_input n ! (q + 1) \<noteq> incompressible_input n ! (p + 1)"
  proof (cases "p + 1 < n")
    case False
    then show ?thesis by (simp add: length_incompressible_input)
  next
    case True
    with qp have "incompressible_input n ! q = incompressible_byte q"
      "incompressible_input n ! p = incompressible_byte p"
      "incompressible_input n ! (q + 1) = incompressible_byte (q + 1)"
      "incompressible_input n ! (p + 1) = incompressible_byte (p + 1)"
      by (simp_all add: incompressible_input_def)
    moreover from True assms have "p + 1 < 3640" by simp
    ultimately show ?thesis using incompressible_pairs[OF qp] by simp
  qed
qed

lemma encode_element_literal:
  assumes "find_match source i (src_pos st) = Inr (bl, bs)" "bl \<le> 2"
    "src_pos st < length source" "out_pos st < 0x10000"
  shows "encode_element source i bt st =
           Inr (st\<lparr>data := (data st)(out_pos st := Some (source ! src_pos st)),
                   out_pos := out_pos st + 1, src_pos := src_pos st + 1,
                   emitted := emitted st @ [Literal (source ! src_pos st)]\<rparr>)"
  using assms by (simp add: encode_element_def src_read_def store_def)

lemma bits_literals:
  assumes nm: "\<And>p. \<exists>bl bs. find_match source i p = Inr (bl, bs) \<and> bl \<le> 2"
  shows "n \<le> 8 \<Longrightarrow> src_pos st + n \<le> length source \<Longrightarrow> out_pos st + n < 0x10000 \<Longrightarrow>
         \<exists>st'. bits source i (8 - n) st = Inr st' \<and> out_pos st' = out_pos st + n \<and>
               src_pos st' = src_pos st + n \<and> is_done st' = is_done st"
proof (induction n arbitrary: st)
  case 0
  show ?case by (simp add: bits.simps[of source i 8 st])
next
  case (Suc n)
  from nm[of "src_pos st"] obtain bl bs
    where f: "find_match source i (src_pos st) = Inr (bl, bs)" and b: "bl \<le> 2" by blast
  let ?st1 = "st\<lparr>data := (data st)(out_pos st := Some (source ! src_pos st)),
                 out_pos := out_pos st + 1, src_pos := src_pos st + 1,
                 emitted := emitted st @ [Literal (source ! src_pos st)]\<rparr>"
  from Suc.prems have sl: "src_pos st < length source" "out_pos st < 0x10000" by simp_all
  define bt where "bt = 8 - Suc n"
  from encode_element_literal[OF f b sl, of bt]
  have e: "encode_element source i bt st = Inr ?st1" .
  from Suc.prems have "n \<le> 8" "src_pos ?st1 + n \<le> length source" "out_pos ?st1 + n < 0x10000"
    by simp_all
  from Suc.IH[OF this] obtain st' where r: "bits source i (8 - n) ?st1 = Inr st'"
    and o: "out_pos st' = out_pos ?st1 + n" and s: "src_pos st' = src_pos ?st1 + n"
    and d: "is_done st' = is_done ?st1" by blast
  from Suc.prems(1) have bt: "bt < 8" "bt + 1 = 8 - n" by (simp_all add: bt_def)
  from Suc.prems(2) have ne: "src_pos st \<noteq> length source" by simp
  from bt ne e r have "bits source i bt st = Inr st'"
    by (simp add: bits.simps[of source i bt st])
  with o s d show ?case by (simp add: bt_def)
qed

lemma packets_literals_abort:
  assumes nm: "\<And>p. \<exists>bl bs. find_match source i p = Inr (bl, bs) \<and> bl \<le> 2"
    and len: "3640 \<le> length source"
  shows "out_pos st = 2 + 9 * k \<Longrightarrow> src_pos st = 8 * k \<Longrightarrow> k + m = 455 \<Longrightarrow> \<not> is_done st \<Longrightarrow>
         \<exists>st'. packets source i 0x1000 st = Inr st' \<and> \<not> is_done st'"
proof (induction m arbitrary: st k)
  case 0
  then show ?case by (simp add: packets.simps[of source i "0x1000" st])
next
  case (Suc m)
  let ?st2 = "st\<lparr>header_pos := out_pos st, data := (data st)(out_pos st := Some 0),
                 out_pos := out_pos st + 1\<rparr>"
  from Suc.prems have k: "k \<le> 454" by simp
  with Suc.prems len have "(8::nat) \<le> 8" "src_pos ?st2 + 8 \<le> length source"
    "out_pos ?st2 + 8 < 0x10000" by simp_all
  from bits_literals[OF nm this] obtain st1 where r: "bits source i 0 ?st2 = Inr st1"
    and o: "out_pos st1 = out_pos ?st2 + 8" and s: "src_pos st1 = src_pos ?st2 + 8"
    and d: "is_done st1 = is_done ?st2" by auto
  from k Suc.prems(1) have ob: "out_pos st < 0x1000" by simp
  with r have pk: "packet source i st = Inr st1" by (simp add: packet_def store_def)
  from o s d Suc.prems have "out_pos st1 = 2 + 9 * Suc k" "src_pos st1 = 8 * Suc k"
    "Suc k + m = 455" "\<not> is_done st1" by simp_all
  from Suc.IH[OF this] obtain st' where "packets source i 0x1000 st1 = Inr st'" "\<not> is_done st'"
    by blast
  with pk ob Suc.prems(4) show ?case by (simp add: packets.simps[of source i "0x1000" st])
qed

lemma incompressible_trial_aborts:
  "\<exists>st. trial (incompressible_input 3640) i 0x1000 hp = Inr st \<and> \<not> is_done st"
proof -
  have len: "3640 \<le> length (incompressible_input 3640)"
    by (simp add: length_incompressible_input)
  have "\<exists>st. packets (incompressible_input 3640) i 0x1000 (init_state hp) = Inr st \<and>
          \<not> is_done st"
    by (rule packets_literals_abort[OF incompressible_no_match len, of _ 0 455])
      (simp_all add: init_state_def)
  then show ?thesis by (simp add: trial_def)
qed

lemma bits_literals_end:
  assumes nm: "\<And>p. \<exists>bl bs. find_match source i p = Inr (bl, bs) \<and> bl \<le> 2"
  shows "src_pos st + n = length source \<Longrightarrow> bt + n < 8 \<Longrightarrow> 0 < bt + n \<Longrightarrow>
         header_pos st \<le> out_pos st \<Longrightarrow> out_pos st + n + 3 < 0x10000 \<Longrightarrow>
         \<exists>st'. bits source i bt st = Inr st' \<and> is_done st' \<and> clen st' = out_pos st + n + 4"
proof (induction n arbitrary: st bt)
  case 0
  then have a: "src_pos st = length source" "bt < 8" "0 < bt" "header_pos st \<le> out_pos st"
    "out_pos st + 3 < 0x10000" by simp_all
  from finish_total[OF a(4,5), of i bt] obtain st' where f: "finish i bt st = Inr st'" by blast
  from finish_clen[OF f] finish_done[OF f] a f show ?case
    by (simp add: bits.simps[of source i bt st])
next
  case (Suc n)
  from nm[of "src_pos st"] obtain bl bs
    where f: "find_match source i (src_pos st) = Inr (bl, bs)" and b: "bl \<le> 2" by blast
  let ?st1 = "st\<lparr>data := (data st)(out_pos st := Some (source ! src_pos st)),
                 out_pos := out_pos st + 1, src_pos := src_pos st + 1,
                 emitted := emitted st @ [Literal (source ! src_pos st)]\<rparr>"
  from Suc.prems have sl: "src_pos st < length source" "out_pos st < 0x10000" by simp_all
  from encode_element_literal[OF f b sl, of bt]
  have e: "encode_element source i bt st = Inr ?st1" .
  from Suc.prems have "src_pos ?st1 + n = length source" "bt + 1 + n < 8" "0 < bt + 1 + n"
    "header_pos ?st1 \<le> out_pos ?st1" "out_pos ?st1 + n + 3 < 0x10000" by simp_all
  from Suc.IH[OF this] obtain st' where r: "bits source i (bt + 1) ?st1 = Inr st'"
    and d: "is_done st'" and c: "clen st' = out_pos ?st1 + n + 4" by blast
  from Suc.prems have "bt < 8" "src_pos st \<noteq> length source" by simp_all
  with e r have "bits source i bt st = Inr st'" by (simp add: bits.simps[of source i bt st])
  with d c show ?case by simp
qed

lemma packets_literals_overshoot:
  assumes nm: "\<And>p. \<exists>bl bs. find_match source i p = Inr (bl, bs) \<and> bl \<le> 2"
    and len: "length source = 3639"
  shows "out_pos st = 2 + 9 * k \<Longrightarrow> src_pos st = 8 * k \<Longrightarrow> k + m = 454 \<Longrightarrow> \<not> is_done st \<Longrightarrow>
         \<exists>st'. packets source i 0x1000 st = Inr st' \<and> is_done st' \<and> clen st' = 4100"
proof (induction m arbitrary: st k)
  case 0
  let ?st2 = "st\<lparr>header_pos := out_pos st, data := (data st)(out_pos st := Some 0),
                 out_pos := out_pos st + 1\<rparr>"
  from 0 len have "src_pos ?st2 + 7 = length source" "0 + 7 < (8::nat)" "(0::nat) < 0 + 7"
    "header_pos ?st2 \<le> out_pos ?st2" "out_pos ?st2 + 7 + 3 < 0x10000" by simp_all
  from bits_literals_end[OF nm this] obtain st1 where r: "bits source i 0 ?st2 = Inr st1"
    and d: "is_done st1" and c: "clen st1 = out_pos ?st2 + 7 + 4" by blast
  from 0 have ob: "out_pos st < 0x1000" by simp
  with r have pk: "packet source i st = Inr st1" by (simp add: packet_def store_def)
  from d have "packets source i 0x1000 st1 = Inr st1" by (rule packets_done)
  with pk ob "0.prems"(4) have "packets source i 0x1000 st = Inr st1"
    by (simp add: packets.simps[of source i "0x1000" st])
  with d c 0 show ?case by simp
next
  case (Suc m)
  let ?st2 = "st\<lparr>header_pos := out_pos st, data := (data st)(out_pos st := Some 0),
                 out_pos := out_pos st + 1\<rparr>"
  from Suc.prems have k: "k \<le> 453" by simp
  with Suc.prems len have "(8::nat) \<le> 8" "src_pos ?st2 + 8 \<le> length source"
    "out_pos ?st2 + 8 < 0x10000" by simp_all
  from bits_literals[OF nm this] obtain st1 where r: "bits source i 0 ?st2 = Inr st1"
    and o: "out_pos st1 = out_pos ?st2 + 8" and s: "src_pos st1 = src_pos ?st2 + 8"
    and d: "is_done st1 = is_done ?st2" by auto
  from k Suc.prems(1) have ob: "out_pos st < 0x1000" by simp
  with r have pk: "packet source i st = Inr st1" by (simp add: packet_def store_def)
  from o s d Suc.prems have "out_pos st1 = 2 + 9 * Suc k" "src_pos st1 = 8 * Suc k"
    "Suc k + m = 454" "\<not> is_done st1" by simp_all
  from Suc.IH[OF this] obtain st' where "packets source i 0x1000 st1 = Inr st'" "is_done st'"
    "clen st' = 4100" by blast
  with pk ob Suc.prems(4) show ?case by (simp add: packets.simps[of source i "0x1000" st])
qed

lemma incompressible_trial_overshoots:
  "\<exists>st. trial (incompressible_input 3639) i 0x1000 hp = Inr st \<and> clen st = 4100"
proof -
  have len: "length (incompressible_input 3639) = 3639"
    by (simp add: length_incompressible_input)
  have "\<exists>st. packets (incompressible_input 3639) i 0x1000 (init_state hp) = Inr st \<and>
          is_done st \<and> clen st = 4100"
    by (rule packets_literals_overshoot[OF incompressible_no_match len, of _ 0 454])
      (simp_all add: init_state_def)
  then show ?thesis by (auto simp: trial_def)
qed

theorem both_trials_abort_witness:
  "\<exists>st0 st1. trial (incompressible_input 3640) 0 0x1000 0 = Inr st0 \<and> \<not> is_done st0 \<and>
      trial (incompressible_input 3640) 1 0x1000 (header_pos st0) = Inr st1 \<and> \<not> is_done st1 \<and>
      clen st0 = 0x10000 \<and> clen st1 = 0x10000 \<and>
      compress (incompressible_input 3640) = Inr (map (data st0) [0..<0x10000]) \<and>
      data st0 0 = None"
proof -
  from incompressible_trial_aborts[of 0 0] obtain st0
    where t0: "trial (incompressible_input 3640) 0 0x1000 0 = Inr st0" and d0: "\<not> is_done st0"
    by blast
  from incompressible_trial_aborts[of 1 "header_pos st0"] obtain st1
    where t1: "trial (incompressible_input 3640) 1 0x1000 (header_pos st0) = Inr st1"
      and d1: "\<not> is_done st1" by blast
  from both_trials_abort[OF t0 d0 t1 d1] t0 d0 t1 d1 show ?thesis by blast
qed

text \<open>
  Claim C1 fails on the source. On the 3640 bytes above both trials stop at the bound with
  eight input bytes per packet consumed and nothing left to finish the frame, and
  \<open>compress\<close> returns \<open>0x10000\<close> bytes without an error. On the first 3639 of these bytes
  each trial starts its last packet at \<open>out_pos = 4088 < 0x1000\<close>, ends it in the addendum, and
  the returned frame has \<open>4100 > 0x1000\<close> bytes.
\<close>

theorem oversized_frame_returned:
  "map_sum id length (compress (incompressible_input 3640)) = Inr 0x10000 \<and>
   map_sum id length (compress (incompressible_input 3639)) = Inr 4100"
proof -
  from incompressible_trial_aborts[of 0 0] obtain st0
    where t0: "trial (incompressible_input 3640) 0 0x1000 0 = Inr st0" and d0: "\<not> is_done st0"
    by blast
  from incompressible_trial_aborts[of 1 "header_pos st0"] obtain st1
    where t1: "trial (incompressible_input 3640) 1 0x1000 (header_pos st0) = Inr st1"
      and d1: "\<not> is_done st1" by blast
  from trial_abort_clen[OF t0 d0] trial_abort_clen[OF t1 d1] t0 t1
  have a: "compress (incompressible_input 3640) = Inr (map (data st0) [0..<0x10000])"
    by (simp add: compress_def run_trials_def frame_of_def Let_def)
  from incompressible_trial_overshoots[of 0 0] obtain u0
    where v0: "trial (incompressible_input 3639) 0 0x1000 0 = Inr u0" and c0: "clen u0 = 4100"
    by blast
  from incompressible_trial_overshoots[of 1 "header_pos u0"] obtain u1
    where v1: "trial (incompressible_input 3639) 1 0x1000 (header_pos u0) = Inr u1"
      and c1: "clen u1 = 4100" by blast
  from v0 v1 c0 c1
  have b: "compress (incompressible_input 3639) = Inr (map (data u0) [0..<4100])"
    by (simp add: compress_def run_trials_def frame_of_def Let_def)
  from a b show ?thesis by simp
qed

section \<open>The addendum in the returned frame\<close>

text \<open>
  The bytes a packet holds for a list of elements, as lines 154, 164 to 169 and 176 write
  them: a literal is its byte, a match the two bytes of \<open>compr_stream\<close> in little-endian
  order, and bit \<open>k\<close> of the header is set when element \<open>k\<close> is a match.
\<close>

fun element_bytes :: "nat \<Rightarrow> element \<Rightarrow> byte list" where
  "element_bytes i (Literal b) = [b]"
| "element_bytes i (Match lookback best_len) =
     (let compr_stream = lookback OR push_bit (16 - (5 - i)) (best_len - 3)
      in [of_nat (compr_stream mod 0x100), of_nat (compr_stream div 0x100)])"

fun header_bits :: "nat \<Rightarrow> element list \<Rightarrow> byte" where
  "header_bits k [] = 0"
| "header_bits k (Literal b # es) = header_bits (k + 1) es"
| "header_bits k (Match lookback best_len # es) = of_nat (push_bit k 1) OR header_bits (k + 1) es"

definition packet_bytes :: "nat \<Rightarrow> element list \<Rightarrow> byte list" where
  "packet_bytes i es = concat (map (element_bytes i) es)"

fun match_bit :: "nat \<Rightarrow> element \<Rightarrow> byte" where
  "match_bit k (Literal b) = 0"
| "match_bit k (Match lookback best_len) = of_nat (push_bit k 1)"

text \<open>
  \<open>packet_cells\<close>: the packet under construction holds its header and the bytes of the
  elements \<open>es\<close> emitted so far. \<open>addendum_cells\<close>: the array after the termination code has
  turned a partial packet with elements \<open>es\<close> into the addendum.
\<close>

definition packet_cells :: "nat \<Rightarrow> enc_state \<Rightarrow> element list \<Rightarrow> bool" where
  "packet_cells i st es \<longleftrightarrow>
     data st (header_pos st) = Some (header_bits 0 es) \<and>
     out_pos st = header_pos st + 1 + length (packet_bytes i es) \<and>
     (\<forall>j<length (packet_bytes i es).
        data st (header_pos st + 1 + j) = Some (packet_bytes i es ! j))"

definition addendum_cells :: "nat \<Rightarrow> enc_state \<Rightarrow> element list \<Rightarrow> bool" where
  "addendum_cells i st es \<longleftrightarrow>
     out_pos st = header_pos st + 1 + length (packet_bytes i es) \<and>
     clen st = out_pos st + 4 \<and>
     data st 0 = Some (of_nat ((header_pos st - 2) mod 0x100)) \<and>
     data st 1 = Some (of_nat ((header_pos st - 2) div 0x100)) \<and>
     data st (header_pos st) = Some (of_nat (0xC0 * (1 - i) OR length es)) \<and>
     data st (header_pos st + 1) = Some (of_nat ((out_pos st + 3) mod 0x100)) \<and>
     data st (header_pos st + 2) = Some (of_nat ((out_pos st + 3) div 0x100)) \<and>
     data st (header_pos st + 3) =
       Some (header_bits 0 es OR of_nat (push_bit (length es) 0xFF AND 0xFF)) \<and>
     (\<forall>j<length (packet_bytes i es).
        data st (header_pos st + 4 + j) = Some (packet_bytes i es ! j)) \<and>
     data st (out_pos st + 3) = Some (of_nat (0xC0 * (1 - i)))"

lemma header_bits_snoc: "header_bits k (es @ [e]) = header_bits k es OR match_bit (k + length es) e"
proof (induction es arbitrary: k)
  case Nil
  show ?case by (cases e) simp_all
next
  case (Cons x es)
  then show ?case by (cases x) (simp_all add: or.assoc)
qed

lemma packet_bytes_snoc: "packet_bytes i (es @ [e]) = packet_bytes i es @ element_bytes i e"
  by (simp add: packet_bytes_def)

lemma element_bytes_length: "0 < length (element_bytes i e) \<and> length (element_bytes i e) \<le> 2"
  by (cases e) (simp_all add: Let_def)

lemma encode_element_cells:
  assumes "encode_element source i bt st = Inr st'" "header_pos st < out_pos st"
  shows "\<exists>e. emitted st' = emitted st @ [e] \<and> header_pos st' = header_pos st \<and>
           is_done st' = is_done st \<and> clen st' = clen st \<and>
           out_pos st' = out_pos st + length (element_bytes i e) \<and>
           data st' (header_pos st) =
             map_option (\<lambda>x. x OR match_bit bt e) (data st (header_pos st)) \<and>
           (\<forall>k. k < out_pos st \<and> k \<noteq> header_pos st \<longrightarrow> data st' k = data st k) \<and>
           (\<forall>j<length (element_bytes i e). data st' (out_pos st + j) = Some (element_bytes i e ! j))"
proof -
  from find_match_total[of source i "src_pos st"] obtain bl bs
    where f: "find_match source i (src_pos st) = Inr (bl, bs)" by force
  show ?thesis
  proof (cases "2 < bl")
    case True
    with assms f have
      "st' = st\<lparr>data := (data st)(header_pos st :=
                      map_option (\<lambda>b. b OR of_nat (push_bit bt 1)) (data st (header_pos st)),
                    out_pos st := Some (of_nat ((src_pos st - bs OR push_bit (16 - (5 - i)) (bl - 3)) mod 0x100)),
                    out_pos st + 1 := Some (of_nat ((src_pos st - bs OR push_bit (16 - (5 - i)) (bl - 3)) div 0x100))),
                 out_pos := out_pos st + 2, src_pos := src_pos st + bl,
                 emitted := emitted st @ [Match (src_pos st - bs) bl]\<rparr>"
      by (auto simp: encode_element_def bnd_eq_Inr Let_def or_store_eq_Inr store_eq_Inr)
    with assms(2) show ?thesis
      by (intro exI[of _ "Match (src_pos st - bs) bl"]) (auto simp: Let_def less_Suc_eq_0_disj)
  next
    case False
    with assms f have
      "st' = st\<lparr>data := (data st)(out_pos st := Some (source ! src_pos st)),
                 out_pos := out_pos st + 1, src_pos := src_pos st + 1,
                 emitted := emitted st @ [Literal (source ! src_pos st)]\<rparr>"
      by (auto simp: encode_element_def bnd_eq_Inr Let_def store_eq_Inr src_read_eq_Inr)
    with assms(2) show ?thesis
      by (intro exI[of _ "Literal (source ! src_pos st)"]) (auto simp: option.map_ident)
  qed
qed

lemma packet_cells_step:
  assumes "packet_cells i st es" "length es = bt" "encode_element source i bt st = Inr st'"
  shows "\<exists>e. emitted st' = emitted st @ [e] \<and> packet_cells i st' (es @ [e]) \<and>
           header_pos st' = header_pos st \<and> is_done st' = is_done st"
proof -
  let ?h = "header_pos st"
  from assms(1) have hd: "data st ?h = Some (header_bits 0 es)"
    and op: "out_pos st = ?h + 1 + length (packet_bytes i es)"
    and cl: "\<And>j. j < length (packet_bytes i es) \<Longrightarrow> data st (?h + 1 + j) = Some (packet_bytes i es ! j)"
    by (simp_all add: packet_cells_def)
  from op have lt: "?h < out_pos st" by simp
  from encode_element_cells[OF assms(3) lt] obtain e where
    em: "emitted st' = emitted st @ [e]" and hp: "header_pos st' = ?h"
    and dn: "is_done st' = is_done st"
    and op': "out_pos st' = out_pos st + length (element_bytes i e)"
    and hd': "data st' ?h = map_option (\<lambda>x. x OR match_bit bt e) (data st ?h)"
    and old: "\<And>k. k < out_pos st \<Longrightarrow> k \<noteq> ?h \<Longrightarrow> data st' k = data st k"
    and new: "\<And>j. j < length (element_bytes i e) \<Longrightarrow>
                data st' (out_pos st + j) = Some (element_bytes i e ! j)"
    by blast
  have 1: "data st' (header_pos st') = Some (header_bits 0 (es @ [e]))"
    using hd hd' hp assms(2) by (simp add: header_bits_snoc)
  have 2: "out_pos st' = header_pos st' + 1 + length (packet_bytes i (es @ [e]))"
    using op op' hp by (simp add: packet_bytes_snoc)
  have 3: "data st' (header_pos st' + 1 + j) = Some (packet_bytes i (es @ [e]) ! j)"
    if "j < length (packet_bytes i (es @ [e]))" for j
  proof (cases "j < length (packet_bytes i es)")
    case True
    with old[of "?h + 1 + j"] op cl[OF True] hp show ?thesis
      by (simp add: packet_bytes_snoc nth_append)
  next
    case False
    with that have "j - length (packet_bytes i es) < length (element_bytes i e)"
      by (simp add: packet_bytes_snoc)
    from new[OF this] False op hp show ?thesis
      by (simp add: packet_bytes_snoc nth_append)
  qed
  from 1 2 3 have "packet_cells i st' (es @ [e])" by (simp add: packet_cells_def)
  with em hp dn show ?thesis by blast
qed

lemma finish_addendum:
  assumes "finish i bt st = Inr st'" "0 < bt" "2 \<le> header_pos st" "header_pos st < out_pos st"
  shows "header_pos st' = header_pos st \<and> out_pos st' = out_pos st \<and> emitted st' = emitted st \<and>
         clen st' = out_pos st + 4 \<and>
         data st' 0 = Some (of_nat ((header_pos st - 2) mod 0x100)) \<and>
         data st' 1 = Some (of_nat ((header_pos st - 2) div 0x100)) \<and>
         data st' (header_pos st) = Some (of_nat (0xC0 * (1 - i) OR bt)) \<and>
         data st' (header_pos st + 1) = Some (of_nat ((out_pos st + 3) mod 0x100)) \<and>
         data st' (header_pos st + 2) = Some (of_nat ((out_pos st + 3) div 0x100)) \<and>
         data st' (header_pos st + 3) =
           map_option (\<lambda>b. b OR of_nat (push_bit bt 0xFF AND 0xFF)) (data st (header_pos st)) \<and>
         (\<forall>j. 0 < j \<and> j < out_pos st - header_pos st \<longrightarrow>
              data st' (header_pos st + 3 + j) = data st (header_pos st + j)) \<and>
         data st' (out_pos st + 3) = Some (of_nat (0xC0 * (1 - i)))"
proof -
  let ?h = "header_pos st" and ?o = "out_pos st"
  let ?d0 = "(data st)(?h := map_option (\<lambda>b. b OR of_nat (push_bit bt 0xFF AND 0xFF)) (data st ?h))"
  from assms(1,2) obtain d1 where r: "relocate ?h (?o - ?h) ?d0 = Inr d1"
    and st': "st' = st\<lparr>data := d1(?h := Some (of_nat (0xC0 * (1 - i) OR bt)),
                  ?h + 1 := Some (of_nat ((?o + 3) mod 0x100)),
                  ?h + 2 := Some (of_nat ((?o + 3) div 0x100)),
                  ?o + 3 := Some (of_nat (0xC0 * (1 - i))),
                  0 := Some (of_nat ((?h - 2) mod 0x100)),
                  1 := Some (of_nat ((?h - 2) div 0x100))),
               clen := ?o + 4, is_done := True\<rparr>"
    by (auto simp: finish_def Let_def bnd_eq_Inr store_eq_Inr or_store_eq_Inr)
  from relocate_spec[OF r] have mv: "\<And>j. j < ?o - ?h \<Longrightarrow> d1 (?h + 3 + j) = ?d0 (?h + j)" by auto
  from mv[of 0] assms(4) have m0: "d1 (?h + 3) = ?d0 ?h" by simp
  have mj: "d1 (?h + 3 + j) = data st (?h + j)" if "0 < j" "j < ?o - ?h" for j
    using mv[OF that(2)] that(1) by simp
  show ?thesis
    using st' assms(3,4) m0 mj by auto
qed

lemma finish_addendum_cells:
  assumes "finish i bt st = Inr st'" "0 < bt" "2 \<le> header_pos st" "packet_cells i st es"
    "length es = bt"
  shows "addendum_cells i st' es"
proof -
  let ?h = "header_pos st"
  from assms(4) have hd: "data st ?h = Some (header_bits 0 es)"
    and op: "out_pos st = ?h + 1 + length (packet_bytes i es)"
    and cl: "\<And>j. j < length (packet_bytes i es) \<Longrightarrow> data st (?h + 1 + j) = Some (packet_bytes i es ! j)"
    by (simp_all add: packet_cells_def)
  from op have lt: "?h < out_pos st" by simp
  note f = finish_addendum[OF assms(1,2,3) lt]
  from f have mv: "\<And>j. 0 < j \<Longrightarrow> j < out_pos st - ?h \<Longrightarrow> data st' (?h + 3 + j) = data st (?h + j)"
    by blast
  have cells: "data st' (?h + 4 + j) = Some (packet_bytes i es ! j)"
    if "j < length (packet_bytes i es)" for j
  proof -
    have a: "?h + 3 + Suc j = ?h + 4 + j" "?h + Suc j = ?h + 1 + j" by simp_all
    from that op have "0 < Suc j" "Suc j < out_pos st - ?h" by simp_all
    from mv[OF this] cl[OF that] show ?thesis unfolding a by simp
  qed
  from f hd op cells assms(5) show ?thesis
    by (simp add: addendum_cells_def)
qed

lemma bits_finishes:
  "bits source i bt st = Inr st' \<Longrightarrow> is_done st' \<Longrightarrow> \<not> is_done st \<Longrightarrow> length es = bt \<Longrightarrow>
     packet_cells i st es \<Longrightarrow> emitted st = pre @ es \<Longrightarrow> 2 \<le> header_pos st \<Longrightarrow>
     \<exists>es'. emitted st' = pre @ es' \<and> length es' < 8 \<and> (es' \<noteq> [] \<longrightarrow> addendum_cells i st' es')"
proof (induction source i bt st arbitrary: es rule: bits.induct)
  case (1 source i bt st)
  note unf = bits.simps[of source i bt st]
  show ?case
  proof (cases "bt < 8")
    case False
    with "1.prems"(1,2,3) unf show ?thesis by simp
  next
    case True
    show ?thesis
    proof (cases "src_pos st = length source")
      case atend: True
      with True "1.prems"(1) unf have f: "finish i bt st = Inr st'" by simp
      from finish_keeps[OF f] "1.prems"(6) have em: "emitted st' = pre @ es" by simp
      have "addendum_cells i st' es" if "es \<noteq> []"
      proof -
        from that "1.prems"(4) have "0 < bt" by auto
        from finish_addendum_cells[OF f this "1.prems"(7,5,4)] show ?thesis .
      qed
      with em True "1.prems"(4) show ?thesis by auto
    next
      case False
      with True "1.prems"(1) unf obtain st1 where e: "encode_element source i bt st = Inr st1"
        and b: "bits source i (bt + 1) st1 = Inr st'"
        by (auto split: sum.splits)
      from packet_cells_step[OF "1.prems"(5,4) e] obtain x where
        em: "emitted st1 = emitted st @ [x]" and pc: "packet_cells i st1 (es @ [x])"
        and hp: "header_pos st1 = header_pos st" and dn: "is_done st1 = is_done st" by blast
      from dn "1.prems"(3) have nd: "\<not> is_done st1" by simp
      from "1.prems"(4) have ln: "length (es @ [x]) = bt + 1" by simp
      from em "1.prems"(6) have em1: "emitted st1 = pre @ es @ [x]" by simp
      from hp "1.prems"(7) have h2: "2 \<le> header_pos st1" by simp
      from "1.IH"[OF True False e b "1.prems"(2) nd ln pc em1 h2] show ?thesis .
    qed
  qed
qed

lemma bits_continues:
  "bits source i bt st = Inr st' \<Longrightarrow> \<not> is_done st' \<Longrightarrow> bt \<le> 8 \<Longrightarrow>
     length (emitted st') = length (emitted st) + (8 - bt) \<and> out_pos st \<le> out_pos st'"
proof (induction source i bt st rule: bits.induct)
  case (1 source i bt st)
  note unf = bits.simps[of source i bt st]
  show ?case
  proof (cases "bt < 8")
    case False
    with "1.prems" unf show ?thesis by simp
  next
    case True
    show ?thesis
    proof (cases "src_pos st = length source")
      case atend: True
      with True "1.prems"(1) unf have f: "finish i bt st = Inr st'" by simp
      from finish_done[OF f] "1.prems"(2) show ?thesis by simp
    next
      case False
      with True "1.prems"(1) unf obtain st1 where e: "encode_element source i bt st = Inr st1"
        and b: "bits source i (bt + 1) st1 = Inr st'"
        by (auto split: sum.splits)
      from encode_element_emits[OF e] have "length (emitted st1) = length (emitted st) + 1"
        by auto
      with "1.IH"[OF True False e b "1.prems"(2)] True encode_element_out_pos[OF e]
      show ?thesis by simp
    qed
  qed
qed

lemma packets_layout:
  "packets source i b st = Inr st' \<Longrightarrow> \<not> is_done st \<Longrightarrow> length (emitted st) mod 8 = 0 \<Longrightarrow>
     2 \<le> out_pos st \<Longrightarrow>
     (if is_done st'
      then \<exists>pre es. emitted st' = pre @ es \<and> length pre mod 8 = 0 \<and> length es < 8 \<and>
             (es \<noteq> [] \<longrightarrow> addendum_cells i st' es)
      else length (emitted st') mod 8 = 0)"
proof (induction source i b st rule: packets.induct)
  case (1 source i b st)
  note unf = packets.simps[of source i b st]
  show ?case
  proof (cases "b \<le> out_pos st")
    case True
    with "1.prems" unf have "st' = st" by (auto split: if_splits)
    with "1.prems" show ?thesis by simp
  next
    case False
    with "1.prems"(1,2) unf obtain st1 where pk: "packet source i st = Inr st1"
      and rec: "packets source i b st1 = Inr st'"
      by (auto split: sum.splits)
    let ?st2 = "st\<lparr>header_pos := out_pos st, data := (data st)(out_pos st := Some 0),
                   out_pos := out_pos st + 1\<rparr>"
    from pk have bs: "bits source i 0 ?st2 = Inr st1"
      by (auto simp: packet_def bnd_eq_Inr store_eq_Inr)
    have pc: "packet_cells i ?st2 []" by (simp add: packet_cells_def packet_bytes_def)
    show ?thesis
    proof (cases "is_done st1")
      case True
      with rec packets_done[of st1 source i b] have eq: "st' = st1" by simp
      from bits_finishes[OF bs True _ _ pc, of "emitted st"] "1.prems"(2,4)
      obtain es' where "emitted st1 = emitted st @ es'" "length es' < 8"
        "es' \<noteq> [] \<longrightarrow> addendum_cells i st1 es'" by auto
      with "1.prems"(3) have "emitted st1 = emitted st @ es' \<and> length (emitted st) mod 8 = 0 \<and>
          length es' < 8 \<and> (es' \<noteq> [] \<longrightarrow> addendum_cells i st1 es')" by simp
      then have "\<exists>pre es. emitted st1 = pre @ es \<and> length pre mod 8 = 0 \<and>
          length es < 8 \<and> (es \<noteq> [] \<longrightarrow> addendum_cells i st1 es)" by (intro exI)
      with eq True show ?thesis by simp
    next
      case nd1: False
      from bits_continues[OF bs nd1] "1.prems"(3,4)
      have "length (emitted st1) mod 8 = 0" "2 \<le> out_pos st1" by simp_all
      from "1.IH"[OF "1.prems"(2) False pk rec nd1 this] show ?thesis .
    qed
  qed
qed

lemma trial_layout:
  assumes "trial source i b hp = Inr st"
  shows "if is_done st
         then \<exists>pre es. emitted st = pre @ es \<and> length pre mod 8 = 0 \<and> length es < 8 \<and>
                (es \<noteq> [] \<longrightarrow> addendum_cells i st es)
         else length (emitted st) mod 8 = 0"
proof -
  from assms have "packets source i b (init_state hp) = Inr st" by (simp add: trial_def)
  from packets_layout[OF this] show ?thesis by (simp add: init_state_def)
qed

lemma trial_clen:
  assumes "trial source i b hp = Inr st" "b \<le> 0x1000"
  shows "clen st \<le> 0x10000"
  using trial_total[OF assms(2), of source i hp] assms(1) by auto

lemma run_trials_selected:
  assumes "run_trials source = Inr (i, st)"
  shows "i < 2 \<and> (\<exists>b hp. trial source i b hp = Inr st) \<and>
         compress source = Inr (map (data st) [0..<clen st])"
proof -
  from assms have "\<exists>st0. trial source 0 0x1000 0 = Inr st0 \<and>
      (\<exists>st1. trial source 1 (if clen st0 < 0x1000 then clen st0 else 0x1000) (header_pos st0)
               = Inr st1 \<and>
         Inr (if clen st0 \<le> clen st1 then 0 else 1,
              if (if clen st0 \<le> clen st1 then 0 else (1::nat)) = 0 then st0 else st1)
           = (Inr (i, st) :: error + nat \<times> enc_state))"
    by (simp only: run_trials_def Let_def bnd_eq_Inr)
  then obtain st0 st1 where t0: "trial source 0 0x1000 0 = Inr st0"
    and t1: "trial source 1 (if clen st0 < 0x1000 then clen st0 else 0x1000) (header_pos st0) = Inr st1"
    and sel: "Inr (if clen st0 \<le> clen st1 then 0 else 1,
              if (if clen st0 \<le> clen st1 then 0 else (1::nat)) = 0 then st0 else st1)
           = (Inr (i, st) :: error + nat \<times> enc_state)"
    by blast
  from trial_clen[OF t0] have c0: "clen st0 \<le> 0x10000" by simp
  from trial_clen[OF t1] have c1: "clen st1 \<le> 0x10000" by simp
  from sel have "(i = 0 \<and> st = st0) \<or> (i = 1 \<and> st = st1)"
    by (cases "clen st0 \<le> clen st1") simp_all
  then show ?thesis
  proof
    assume "i = 0 \<and> st = st0"
    with t0 c0 assms show ?thesis by (auto simp: compress_def frame_of_def)
  next
    assume "i = 1 \<and> st = st1"
    with t1 c1 assms show ?thesis by (auto simp: compress_def frame_of_def)
  qed
qed

lemma map_upt_cells:
  assumes "\<And>j. j < length xs \<Longrightarrow> f (h + j) = xs ! j"
  shows "map f [h..<h + length xs] = xs"
  by (rule nth_equalityI) (simp_all add: assms)

text \<open>
  Claim C3, as the source has it. Let \<open>compress\<close> return \<open>frame\<close> from the trial \<open>i\<close> it
  selects, and let that trial have ended mid-packet: the number \<open>a\<close> of elements emitted
  modulo 8 (a full packet holds 8) is not 0, and \<open>es\<close> are the last \<open>a\<close> elements, those of
  the partial packet. Then the trial did finish, the first two bytes of \<open>frame\<close> are
  \<open>header_pos - 2\<close> in little-endian order, and from \<open>header_pos\<close> to its end the frame
  consists of the addendum header \<open>0xC0 * (1 - i) | a\<close>, the two bytes of \<open>out_pos + 3\<close>
  in little-endian order, the relocated header byte of the partial packet with its unused high
  bits set, the bytes of the \<open>a\<close> elements in order, and the trailing byte
  \<open>0xC0 * (1 - i)\<close>. The relocation of lines 95 to 99 copies \<open>out_pos - header_pos\<close> bytes,
  the header included, so one byte stands between the length marker and the first element.
\<close>

theorem addendum_frame_layout:
  assumes "run_trials source = Inr (i, st)" and "compress source = Inr frame"
    and "a = length (emitted st) mod 8" and "0 < a"
    and "es = drop (length (emitted st) - a) (emitted st)"
  shows "is_done st \<and> length es = a \<and> length frame = out_pos st + 4 \<and>
         take 2 frame = map Some [of_nat ((header_pos st - 2) mod 0x100),
                                  of_nat ((header_pos st - 2) div 0x100)] \<and>
         drop (header_pos st) frame = map Some
           ([of_nat (0xC0 * (1 - i) OR a)] @
            [of_nat ((out_pos st + 3) mod 0x100), of_nat ((out_pos st + 3) div 0x100)] @
            [header_bits 0 es OR of_nat (push_bit a 0xFF AND 0xFF)] @
            packet_bytes i es @
            [of_nat (0xC0 * (1 - i))])"
proof -
  from run_trials_selected[OF assms(1)] assms(2) obtain b hp
    where t: "trial source i b hp = Inr st"
      and fr: "frame = map (data st) [0..<clen st]" by auto
  note tl = trial_layout[OF t]
  have d: "is_done st"
  proof (rule ccontr)
    assume nd: "\<not> is_done st"
    from tl have "length (emitted st) mod 8 = 0" unfolding if_not_P[OF nd] .
    with assms(3,4) show False by simp
  qed
  from tl have "\<exists>pre es. emitted st = pre @ es \<and> length pre mod 8 = 0 \<and> length es < 8 \<and>
      (es \<noteq> [] \<longrightarrow> addendum_cells i st es)" unfolding if_P[OF d] .
  then obtain pre where "\<exists>es. emitted st = pre @ es \<and> length pre mod 8 = 0 \<and> length es < 8 \<and>
      (es \<noteq> [] \<longrightarrow> addendum_cells i st es)" ..
  then obtain es' where cj: "emitted st = pre @ es' \<and> length pre mod 8 = 0 \<and> length es' < 8 \<and>
      (es' \<noteq> [] \<longrightarrow> addendum_cells i st es')" ..
  from cj have em: "emitted st = pre @ es'" by (rule conjunct1)
  from cj have pm: "length pre mod 8 = 0" by (elim conjE)
  from cj have le: "length es' < 8" by (elim conjE)
  from cj have ac: "es' \<noteq> [] \<longrightarrow> addendum_cells i st es'" by (elim conjE)
  from pm le have "(length pre + length es') mod 8 = length es'" by presburger
  with em have "length (emitted st) mod 8 = length es'" by simp
  with assms(3) have la: "length es' = a" by simp
  with em assms(5) have es: "es = es'" by simp
  from la assms(4) ac have c: "addendum_cells i st es'" by auto
  let ?h = "header_pos st" and ?n = "length (packet_bytes i es')"
  let ?xs = "map Some
           ([of_nat (0xC0 * (1 - i) OR a)] @
            [of_nat ((out_pos st + 3) mod 0x100), of_nat ((out_pos st + 3) div 0x100)] @
            [header_bits 0 es' OR of_nat (push_bit a 0xFF AND 0xFF)] @
            packet_bytes i es' @
            [of_nat (0xC0 * (1 - i))])"
  from c have op: "out_pos st = ?h + 1 + ?n" and cl: "clen st = out_pos st + 4"
    and d0: "data st 0 = Some (of_nat ((?h - 2) mod 0x100))"
    and d1: "data st 1 = Some (of_nat ((?h - 2) div 0x100))"
    and c0: "data st ?h = Some (of_nat (0xC0 * (1 - i) OR length es'))"
    and c1: "data st (?h + 1) = Some (of_nat ((out_pos st + 3) mod 0x100))"
    and c2: "data st (?h + 2) = Some (of_nat ((out_pos st + 3) div 0x100))"
    and c3: "data st (?h + 3) =
               Some (header_bits 0 es' OR of_nat (push_bit (length es') 0xFF AND 0xFF))"
    and cb: "\<And>j. j < ?n \<Longrightarrow> data st (?h + 4 + j) = Some (packet_bytes i es' ! j)"
    and ct: "data st (out_pos st + 3) = Some (of_nat (0xC0 * (1 - i)))"
    unfolding addendum_cells_def by blast+
  have len: "length ?xs = ?n + 5" by simp
  have cells: "data st (?h + j) = ?xs ! j" if "j < length ?xs" for j
  proof -
    from that len have "j = 0 \<or> j = 1 \<or> j = 2 \<or> j = 3 \<or> (4 \<le> j \<and> j - 4 < ?n) \<or> j = ?n + 4"
      by auto
    then show ?thesis
    proof (elim disjE)
      assume "j = 0" with c0 la show ?thesis by simp
    next
      assume "j = 1" with c1 show ?thesis by simp
    next
      assume "j = 2" with c2 show ?thesis by simp
    next
      assume "j = 3" with c3 la show ?thesis by simp
    next
      assume j: "4 \<le> j \<and> j - 4 < ?n"
      then obtain k where k: "j = 4 + k" "k < ?n" by (metis le_add_diff_inverse)
      from cb[OF k(2)] k show ?thesis by (simp add: nth_append add.assoc)
    next
      assume j: "j = ?n + 4"
      from op have "out_pos st + 3 = ?h + (?n + 4)" by simp
      with ct have "data st (?h + (?n + 4)) = Some (of_nat (0xC0 * (1 - i)))" by simp
      with j show ?thesis by (simp add: nth_append)
    qed
  qed
  from cl op len have ce: "clen st = ?h + length ?xs" by simp
  have "map (data st) [?h..<?h + length ?xs] = ?xs" by (rule map_upt_cells[OF cells])
  then have mx: "map (data st) [?h..<clen st] = ?xs" unfolding ce .
  from fr have "drop ?h frame = map (data st) [?h..<clen st]" by (simp add: drop_map)
  also note mx
  finally have dr: "drop ?h frame = ?xs" .
  have two: "[0..<2] = [0, Suc 0]" by (simp add: upt_rec)
  from fr cl have "take 2 frame = map (data st) [0..<2]" by (simp add: take_map two)
  with d0 d1 have tk: "take 2 frame = map Some [of_nat ((?h - 2) mod 0x100),
                                  of_nat ((?h - 2) div 0x100)]" by (simp add: two)
  from fr cl have "length frame = out_pos st + 4" by simp
  with d la es dr tk show ?thesis by simp
qed

theorem addendum_frame_layout_witness:
  "\<exists>st. run_trials [1, 2, 3, 1, 2, 3, 1, 2, 3] = Inr (0, st) \<and>
        emitted st = [Literal 1, Literal 2, Literal 3, Match 3 6] \<and>
        header_pos st = 2 \<and> out_pos st = 8 \<and>
        compress [1, 2, 3, 1, 2, 3, 1, 2, 3] =
          Inr (map Some ([0x00, 0x00] @ [0xC4] @ [0x0B, 0x00] @ [0xF8] @
                         [0x01, 0x02, 0x03, 0x03, 0x18] @ [0xC0]))"
proof -
  let ?S = "[1, 2, 3, 1, 2, 3, 1, 2, 3] :: byte list"
  have "\<exists>st. run_trials ?S = Inr (0, st) \<and>
          emitted st = [Literal 1, Literal 2, Literal 3, Match 3 6] \<and>
          header_pos st = 2 \<and> out_pos st = 8"
    by (simp add: eval_defs)
  then obtain st where r: "run_trials ?S = Inr (0, st)"
    and e: "emitted st = [Literal 1, Literal 2, Literal 3, Match 3 6]"
    and h: "header_pos st = 2" and o: "out_pos st = 8" by blast
  from run_trials_selected[OF r] obtain frame where c: "compress ?S = Inr frame" by blast
  have a: "(4::nat) = length (emitted st) mod 8" "(0::nat) < 4"
    "emitted st = drop (length (emitted st) - 4) (emitted st)" using e by simp_all
  from addendum_frame_layout[OF r c a] e h o
  have tk: "take 2 frame = map Some [0, 0]"
    and dr: "drop 2 frame = map Some ([0xC4] @ [0x0B, 0x00] @ [0xF8] @
                         [0x01, 0x02, 0x03, 0x03, 0x18] @ [0xC0])"
    by (simp_all add: packet_bytes_def)
  from append_take_drop_id[of 2 frame] tk dr have "frame = map Some ([0x00, 0x00] @ [0xC4] @
      [0x0B, 0x00] @ [0xF8] @ [0x01, 0x02, 0x03, 0x03, 0x18] @ [0xC0])"
    by (metis map_append)
  with r e h o c show ?thesis by blast
qed

text \<open>
  Claim C3 as stated fails on the two-byte input \<open>41 42\<close>: the frame has the byte \<open>FC\<close>
  (the relocated packet header) between the length marker \<open>08 00\<close> and the first element
  \<open>41\<close>, so it is not header, marker, elements, trailing byte.
\<close>

theorem addendum_header_counterexample:
  "compress [0x41, 0x42] =
     Inr [Some 0, Some 0, Some 0xC2, Some 8, Some 0, Some 0xFC, Some 0x41, Some 0x42, Some 0xC0] \<and>
   compress [0x41, 0x42] \<noteq>
     Inr (map Some ([0, 0] @ [0xC2] @ [8, 0] @ [0x41, 0x42] @ [0xC0]))"
  by (simp add: compress_def frame_of_def eval_defs upt_9)

end
